theory Spec2Isabelle
  imports Complex_Main "HOL-Library.Multiset" "HOL-Library.Stream"
begin

section \<open>JavaScript numbers and arrays, as far as the puzzle uses them\<close>

text \<open>
  The puzzle computes with integers only. They are modelled as \<open>int\<close>; JavaScript's
  doubles are exact on integers below \<open>2^53\<close>, and no board that can be constructed
  (at most \<open>2^32 - 1\<close> cells) leaves that range. The remainder \<open>%\<close> and
  \<open>Math.floor(a / b)\<close> leave the integers when the divisor is zero (a puzzle of
  size 0), so their results are \<open>jsnum\<close>s.
\<close>

datatype jsnum = Fin int | NaN | PosInf | NegInf

text \<open>\<open>a % b\<close>: the remainder takes the sign of the dividend; \<open>a % 0\<close> is NaN.\<close>

definition js_rem :: "int \<Rightarrow> int \<Rightarrow> jsnum" where
  "js_rem a b = (if b = 0 then NaN else Fin (sgn a * (\<bar>a\<bar> mod \<bar>b\<bar>)))"

text \<open>\<open>Math.floor(a / b)\<close>: \<open>a / 0\<close> is Infinity, -Infinity or (for \<open>0 / 0\<close>) NaN.\<close>

definition js_floor_div :: "int \<Rightarrow> int \<Rightarrow> jsnum" where
  "js_floor_div a b =
     (if b = 0 then (if 0 < a then PosInf else if a < 0 then NegInf else NaN)
      else Fin (a div b))"

text \<open>\<open>v % b\<close> for a value that may already be non-finite (then the result is NaN).\<close>

definition num_rem :: "jsnum \<Rightarrow> int \<Rightarrow> jsnum" where
  "num_rem v b = (case v of Fin a \<Rightarrow> js_rem a b | _ \<Rightarrow> NaN)"

text \<open>Strict equality \<open>===\<close> on numbers: NaN equals nothing, not even itself.\<close>

definition js_eq :: "jsnum \<Rightarrow> jsnum \<Rightarrow> bool" where
  "js_eq a b = (a \<noteq> NaN \<and> a = b)"

text \<open>
  A cell of the board array holds a number or \<open>undefined\<close>. An empty slot of a sparse
  array reads as \<open>undefined\<close> too, and none of the methods the puzzle calls
  (\<open>indexOf\<close>, \<open>every\<close> against an array that is \<open>undefined\<close> there, \<open>map\<close>/\<open>filter\<close>/
  \<open>reduce\<close> in \<open>inversions\<close>) tells the two apart, so both are \<open>None\<close>.
\<close>

type_synonym jsval = "int option"

text \<open>\<open>val2 < val1\<close>: a comparison with \<open>undefined\<close> is false.\<close>

fun js_lt :: "jsval \<Rightarrow> jsval \<Rightarrow> bool" where
  "js_lt (Some a) (Some b) = (a < b)"
| "js_lt _ _ = False"

text \<open>
  An array is its indexed elements together with the properties stored under keys that
  are not array indices (negative keys, or keys from \<open>2^32 - 1\<close> on): an assignment
  \<open>a[k] = v\<close> to such a key leaves the elements and the length alone.
\<close>

record jsarray =
  elems :: "jsval list"
  props :: "int \<Rightarrow> jsval"

definition of_list :: "jsval list \<Rightarrow> jsarray" where
  "of_list xs = \<lparr>elems = xs, props = (\<lambda>_. None)\<rparr>"

text \<open>\<open>a[i]\<close>: \<open>undefined\<close> outside the elements, unless a property was stored there.\<close>

definition arr_get :: "jsarray \<Rightarrow> int \<Rightarrow> jsval" where
  "arr_get a i =
     (if 0 \<le> i \<and> i < int (length (elems a)) then elems a ! nat i
      else if 0 \<le> i \<and> i < 4294967295 then None
      else props a i)"

text \<open>\<open>a[i] = v\<close>: an index past the end grows the array, leaving empty slots between.\<close>

definition arr_set :: "jsarray \<Rightarrow> int \<Rightarrow> jsval \<Rightarrow> jsarray" where
  "arr_set a i v =
     (if 0 \<le> i \<and> i < int (length (elems a)) then a\<lparr>elems := (elems a)[nat i := v]\<rparr>
      else if 0 \<le> i \<and> i < 4294967295
        then a\<lparr>elems := elems a @ replicate (nat i - length (elems a)) None @ [v]\<rparr>
      else a\<lparr>props := (props a)(i := v)\<rparr>)"

text \<open>\<open>arr.indexOf(v)\<close>: the first index holding \<open>v\<close>, or -1.\<close>

primrec indexOf :: "jsval list \<Rightarrow> jsval \<Rightarrow> int" where
  "indexOf [] v = -1"
| "indexOf (x # xs) v =
     (if x = v then 0 else (let r = indexOf xs v in if r < 0 then -1 else r + 1))"

text \<open>\<open>new Array(n)\<close> and \<open>Array(n)\<close> throw a RangeError from length \<open>2^32\<close> on.\<close>

datatype error = RangeError

text \<open>The array \<open>[0, 1, ..., n - 1]\<close> both constructors build.\<close>

definition keys :: "int \<Rightarrow> jsval list" where
  "keys n = map (\<lambda>i. Some (int i)) [0..<nat n]"

section \<open>Utility function \<open>shuffle\<close> (all three files)\<close>

text \<open>
  \<open>Math.floor(Math.random() * arr.length)\<close> is some index below \<open>arr.length\<close>. The
  random source is a stream of naturals, and the index drawn is the next one reduced
  modulo the length, so every index can be drawn and nothing else. The loop moves the
  drawn element to the end of \<open>shuffledArr\<close> and splices it out of \<open>arr\<close>.
\<close>

function shuffle_loop :: "nat stream \<Rightarrow> jsval list \<Rightarrow> jsval list \<Rightarrow> jsval list \<times> nat stream" where
  "shuffle_loop rs arr shuffledArr =
     (if arr = [] then (shuffledArr, rs)
      else (let randomIndex = shd rs mod length arr in
            shuffle_loop (stl rs) (take randomIndex arr @ drop (Suc randomIndex) arr)
              (shuffledArr @ [arr ! randomIndex])))"
  by pat_completeness auto
termination
proof (relation "measure (\<lambda>(rs, arr, acc). length arr)")
  show "wf (measure (\<lambda>(rs, arr, acc). length arr))"
    by simp
next
  fix rs :: "nat stream" and arr shuffledArr :: "jsval list" and randomIndex :: nat
  assume ne: "arr \<noteq> []" and r: "randomIndex = shd rs mod length arr"
  from ne have "randomIndex < length arr"
    unfolding r by simp
  then show "((stl rs, take randomIndex arr @ drop (Suc randomIndex) arr,
               shuffledArr @ [arr ! randomIndex]), rs, arr, shuffledArr)
             \<in> measure (\<lambda>(rs, arr, acc). length arr)"
    by simp
qed

declare shuffle_loop.simps [simp del]

definition shuffle :: "nat stream \<Rightarrow> jsval list \<Rightarrow> jsval list \<times> nat stream" where
  "shuffle rs arr = shuffle_loop rs arr []"

section \<open>Coordinates and inversions (the same in all three files)\<close>

text \<open>\<open>_x(i)\<close> is \<open>i % size\<close>, \<open>_y(i)\<close> is \<open>Math.floor(i / size)\<close>, \<open>_i(x, y)\<close> is \<open>size * y + x\<close>.\<close>

definition x_of :: "int \<Rightarrow> int \<Rightarrow> jsnum" where
  "x_of sz i = js_rem i sz"

definition y_of :: "int \<Rightarrow> int \<Rightarrow> jsnum" where
  "y_of sz i = js_floor_div i sz"

definition i_of :: "int \<Rightarrow> int \<Rightarrow> int \<Rightarrow> int" where
  "i_of sz x y = sz * y + x"

text \<open>
  \<open>inversions()\<close>: for every cell that does not hold \<open>size*size - 1\<close>, the number of later
  cells holding a smaller value; summed over the board.
\<close>

definition inversions_of :: "int \<Rightarrow> jsval list \<Rightarrow> nat" where
  "inversions_of sz arr =
     sum_list (map (\<lambda>(idx1, val1).
                 if val1 = Some (sz * sz - 1) then 0
                 else length (filter (\<lambda>(idx2, val2). idx2 > idx1 \<and> js_lt val2 val1)
                                (enumerate 0 arr)))
               (enumerate 0 arr))"

section \<open>The puzzle of fifteen.js (and part_000): adjacent moves, cached blank\<close>

record puzzle =
  psize :: int
  board :: jsarray
  solvedBoard :: jsarray
  blank_val :: int
  blank_x :: jsnum
  blank_y :: jsnum

definition constructor :: "int \<Rightarrow> error + puzzle" where
  "constructor sz =
     (if 4294967296 \<le> sz * sz then Inl RangeError
      else Inr \<lparr>psize = sz, board = of_list (keys (sz * sz)),
                solvedBoard = of_list (keys (sz * sz)),
                blank_val = sz * sz - 1, blank_x = Fin (sz - 1), blank_y = Fin (sz - 1)\<rparr>)"

definition inversions :: "puzzle \<Rightarrow> nat" where
  "inversions p = inversions_of (psize p) (elems (board p))"

definition solvable :: "puzzle \<Rightarrow> bool" where
  "solvable p =
     ((js_eq (js_rem (psize p) 2) (Fin 1) \<and> inversions p mod 2 = 0)
      \<or> (js_eq (js_rem (psize p) 2) (Fin 0)
          \<and> (js_eq (num_rem (blank_y p) 2) (Fin 1) = (inversions p mod 2 = 0))))"

text \<open>
  \<open>randomize()\<close>: a do-while loop that shuffles, recomputes the cached blank position and
  stops at the first solvable board. Nothing bounds the number of rounds, so the result
  is optional: \<open>None\<close> is the loop that never ends.
\<close>

definition reshuffled :: "puzzle \<Rightarrow> jsval list \<Rightarrow> puzzle" where
  "reshuffled p arr =
     (let blank_pos = indexOf arr (Some (blank_val p)) in
      p\<lparr>board := of_list arr,
        blank_x := x_of (psize p) blank_pos,
        blank_y := y_of (psize p) blank_pos\<rparr>)"

partial_function (option) randomize :: "nat stream \<Rightarrow> puzzle \<Rightarrow> (puzzle \<times> nat stream) option" where
  "randomize rs p =
     (let p' = reshuffled p (fst (shuffle rs (elems (board p))));
          rs' = snd (shuffle rs (elems (board p)))
      in if solvable p' then Some (p', rs') else randomize rs' p')"

text \<open>
  \<open>slide(id)\<close>: legal when \<open>Math.sqrt(dx**2 + dy**2) == 1\<close>. On integers the square root
  is 1 exactly when \<open>dx**2 + dy**2\<close> is 1 (lemma \<open>sqrt_dist_one\<close> below); a coordinate
  that is not finite makes the distance NaN or Infinity, hence the move illegal.
\<close>

definition slide :: "puzzle \<Rightarrow> int \<Rightarrow> bool \<times> puzzle" where
  "slide p ident =
     (let square_x = x_of (psize p) ident;
          square_y = y_of (psize p) ident
      in case (square_x, square_y, blank_x p, blank_y p) of
           (Fin sx, Fin sy, Fin cx, Fin cy) \<Rightarrow>
             if (sx - cx)\<^sup>2 + (sy - cy)\<^sup>2 = 1
             then (True,
                   p\<lparr>board := arr_set (arr_set (board p) (i_of (psize p) cx cy)
                                          (arr_get (board p) ident))
                                 ident (Some (blank_val p)),
                     blank_x := square_x, blank_y := square_y\<rparr>)
             else (False, p)
         | _ \<Rightarrow> (False, p))"

text \<open>\<open>solved()\<close>: every cell equals the cell of \<open>solvedBoard\<close> at the same index.\<close>

definition solved :: "puzzle \<Rightarrow> bool" where
  "solved p = list_all (\<lambda>(idx, tileVal). tileVal = arr_get (solvedBoard p) (int idx))
                (enumerate 0 (elems (board p)))"

section \<open>The puzzle of part_001: chain moves, blank looked up\<close>

record cpuzzle =
  csize :: int
  cboard :: jsarray
  cblank_val :: int

definition constructor_chain :: "int \<Rightarrow> error + cpuzzle" where
  "constructor_chain sz =
     (if 4294967296 \<le> sz * sz then Inl RangeError
      else Inr \<lparr>csize = sz, cboard = of_list (keys (sz * sz)), cblank_val = sz * sz - 1\<rparr>)"

definition blank_i :: "cpuzzle \<Rightarrow> int" where
  "blank_i p = indexOf (elems (cboard p)) (Some (cblank_val p))"

definition inversions_chain :: "cpuzzle \<Rightarrow> nat" where
  "inversions_chain p = inversions_of (csize p) (elems (cboard p))"

definition solvable_chain :: "cpuzzle \<Rightarrow> bool" where
  "solvable_chain p =
     ((js_eq (js_rem (csize p) 2) (Fin 1) \<and> inversions_chain p mod 2 = 0)
      \<or> (js_eq (js_rem (csize p) 2) (Fin 0)
          \<and> (js_eq (num_rem (y_of (csize p) (blank_i p)) 2) (Fin 1)
               = (inversions_chain p mod 2 = 0))))"

partial_function (option) randomize_chain ::
    "nat stream \<Rightarrow> cpuzzle \<Rightarrow> (cpuzzle \<times> nat stream) option" where
  "randomize_chain rs p =
     (let p' = p\<lparr>cboard := of_list (fst (shuffle rs (elems (cboard p))))\<rparr>;
          rs' = snd (shuffle rs (elems (cboard p)))
      in if solvable_chain p' then Some (p', rs') else randomize_chain rs' p')"

text \<open>\<open>_swap(i1, i2)\<close>: both cells are read before either is written.\<close>

definition swap :: "jsarray \<Rightarrow> int \<Rightarrow> int \<Rightarrow> jsarray" where
  "swap a i1 i2 =
     (let v2 = arr_get a i2; v1 = arr_get a i1 in arr_set (arr_set a i1 v2) i2 v1)"

text \<open>
  The four while loops of \<open>slide\<close> walk the blank from index \<open>j\<close> to index \<open>i\<close> in steps
  of \<open>d\<close> (the size for a vertical move, 1 for a horizontal one), swapping as they go.
  With a step that is not positive they never end, so their result is optional.
\<close>

partial_function (option) walk_down :: "int \<Rightarrow> int \<Rightarrow> int \<Rightarrow> jsarray \<Rightarrow> jsarray option" where
  "walk_down d i j a = (if j > i then walk_down d i (j - d) (swap a j (j - d)) else Some a)"

partial_function (option) walk_up :: "int \<Rightarrow> int \<Rightarrow> int \<Rightarrow> jsarray \<Rightarrow> jsarray option" where
  "walk_up d i j a = (if j < i then walk_up d i (j + d) (swap a j (j + d)) else Some a)"

definition walk :: "int \<Rightarrow> int \<Rightarrow> int \<Rightarrow> jsarray \<Rightarrow> jsarray option" where
  "walk d i b a =
     (if b > i then walk_down d i b a else if b < i then walk_up d i b a else Some a)"

definition slide_chain :: "cpuzzle \<Rightarrow> int \<Rightarrow> (bool \<times> cpuzzle) option" where
  "slide_chain p i =
     (let x = x_of (csize p) i;
          y = y_of (csize p) i;
          b = blank_i p;
          bx = x_of (csize p) b;
          by = y_of (csize p) b
      in if js_eq x bx \<and> js_eq y by then Some (False, p)
         else if js_eq x bx
           then map_option (\<lambda>a. (True, p\<lparr>cboard := a\<rparr>)) (walk (csize p) i b (cboard p))
         else if js_eq y by
           then map_option (\<lambda>a. (True, p\<lparr>cboard := a\<rparr>)) (walk 1 i b (cboard p))
         else Some (False, p))"

text \<open>
  \<open>solved()\<close> builds the reference array afresh, which throws for a size whose square
  is no array length.
\<close>

definition solved_chain :: "cpuzzle \<Rightarrow> error + bool" where
  "solved_chain p =
     (if 4294967296 \<le> csize p * csize p then Inl RangeError
      else Inr (list_all (\<lambda>(idx, tileVal).
                  tileVal = arr_get (of_list (keys (csize p * csize p))) (int idx))
                (enumerate 0 (elems (cboard p)))))"

section \<open>Well-formed states and reachable states\<close>

text \<open>The board holds every identifier \<open>0 .. n*n - 1\<close> exactly once.\<close>

definition is_permutation :: "int \<Rightarrow> jsval list \<Rightarrow> bool" where
  "is_permutation n arr \<longleftrightarrow> mset arr = mset (keys (n * n))"

text \<open>
  A state of the caching puzzle is consistent when its board is a permutation and the
  cached blank coordinates are those of the cell holding the blank value.
\<close>

definition consistent :: "puzzle \<Rightarrow> bool" where
  "consistent p \<longleftrightarrow>
     0 < psize p \<and> is_permutation (psize p) (elems (board p))
     \<and> blank_val p = psize p * psize p - 1
     \<and> blank_x p = x_of (psize p) (indexOf (elems (board p)) (Some (blank_val p)))
     \<and> blank_y p = y_of (psize p) (indexOf (elems (board p)) (Some (blank_val p)))"

definition consistent_chain :: "cpuzzle \<Rightarrow> bool" where
  "consistent_chain p \<longleftrightarrow>
     0 < csize p \<and> is_permutation (csize p) (elems (cboard p))
     \<and> cblank_val p = csize p * csize p - 1"

text \<open>
  The states an engine of the given size can be in: the constructed one, and every state
  that \<open>randomize\<close> returns or that \<open>slide\<close>, called on a board position, leaves behind.
\<close>

inductive reachable :: "int \<Rightarrow> puzzle \<Rightarrow> bool" for sz :: int where
  fresh: "constructor sz = Inr p \<Longrightarrow> reachable sz p"
| randomized: "reachable sz p \<Longrightarrow> randomize rs p = Some (p', rs') \<Longrightarrow> reachable sz p'"
| slid: "reachable sz p \<Longrightarrow> 0 \<le> ident \<Longrightarrow> ident < sz * sz
         \<Longrightarrow> slide p ident = (ok, p') \<Longrightarrow> reachable sz p'"

inductive reachable_chain :: "int \<Rightarrow> cpuzzle \<Rightarrow> bool" for sz :: int where
  fresh_chain: "constructor_chain sz = Inr p \<Longrightarrow> reachable_chain sz p"
| randomized_chain: "reachable_chain sz p \<Longrightarrow> randomize_chain rs p = Some (p', rs')
         \<Longrightarrow> reachable_chain sz p'"
| slid_chain: "reachable_chain sz p \<Longrightarrow> 0 \<le> i \<Longrightarrow> i < sz * sz
         \<Longrightarrow> slide_chain p i = Some (ok, p') \<Longrightarrow> reachable_chain sz p'"

text \<open>
  A sequence of calls on an engine, each \<open>randomize\<close> with its own random source, and
  the state it leaves (\<open>None\<close> when a call does not return). \<open>on_board sz c\<close>: a \<open>slide\<close>
  call is made on a board position, \<open>0 \<le> ident < sz*sz\<close>; the functions themselves do
  not check this.
\<close>

datatype call = Slide int | Randomize "nat stream"

fun run :: "puzzle \<Rightarrow> call list \<Rightarrow> puzzle option" where
  "run p [] = Some p"
| "run p (Slide ident # cs) = run (snd (slide p ident)) cs"
| "run p (Randomize rs # cs) =
     (case randomize rs p of None \<Rightarrow> None | Some (p', rs') \<Rightarrow> run p' cs)"

fun run_chain :: "cpuzzle \<Rightarrow> call list \<Rightarrow> cpuzzle option" where
  "run_chain p [] = Some p"
| "run_chain p (Slide i # cs) =
     (case slide_chain p i of None \<Rightarrow> None | Some (ok, p') \<Rightarrow> run_chain p' cs)"
| "run_chain p (Randomize rs # cs) =
     (case randomize_chain rs p of None \<Rightarrow> None | Some (p', rs') \<Rightarrow> run_chain p' cs)"

fun on_board :: "int \<Rightarrow> call \<Rightarrow> bool" where
  "on_board sz (Slide ident) = (0 \<le> ident \<and> ident < sz * sz)"
| "on_board sz (Randomize rs) = True"

text \<open>
  The spec's words for the two legality rules. Adjacent-only: the Euclidean distance
  between the target's coordinates and the blank's equals 1. Chain: the target shares
  its column (same x) or its row (same y) with the blank.
\<close>

definition euclid_one :: "puzzle \<Rightarrow> int \<Rightarrow> bool" where
  "euclid_one p ident =
     (case (x_of (psize p) ident, y_of (psize p) ident, blank_x p, blank_y p) of
        (Fin sx, Fin sy, Fin cx, Fin cy) \<Rightarrow>
          sqrt (real_of_int ((sx - cx)\<^sup>2 + (sy - cy)\<^sup>2)) = 1
      | _ \<Rightarrow> False)"

definition same_column :: "cpuzzle \<Rightarrow> int \<Rightarrow> bool" where
  "same_column p i = js_eq (x_of (csize p) i) (x_of (csize p) (blank_i p))"

definition same_row :: "cpuzzle \<Rightarrow> int \<Rightarrow> bool" where
  "same_row p i = js_eq (y_of (csize p) i) (y_of (csize p) (blank_i p))"

text \<open>
  The words of the chain-slide rule. The target and the blank lie on one line of the
  board, whose neighbouring cells are \<open>step_of\<close> apart in the array (the size in a column,
  1 in a row). \<open>between p i t\<close>: \<open>t\<close> is a cell of that line from the target \<open>i\<close>, included,
  to the blank, excluded. \<open>toward_blank\<close>: the array offset of one cell toward the blank.
\<close>

definition step_of :: "cpuzzle \<Rightarrow> int \<Rightarrow> int" where
  "step_of p i = (if same_column p i then csize p else 1)"

definition between :: "cpuzzle \<Rightarrow> int \<Rightarrow> int \<Rightarrow> bool" where
  "between p i t \<longleftrightarrow>
     min i (blank_i p) \<le> t \<and> t \<le> max i (blank_i p) \<and> step_of p i dvd t - i
     \<and> t \<noteq> blank_i p"

definition toward_blank :: "cpuzzle \<Rightarrow> int \<Rightarrow> int" where
  "toward_blank p i = (if i < blank_i p then step_of p i else - step_of p i)"

text \<open>The freshly constructed 3x3 chain engine.\<close>

abbreviation fresh3_chain :: cpuzzle where
  "fresh3_chain \<equiv>
     \<lparr>csize = 3,
      cboard = of_list [Some 0, Some 1, Some 2, Some 3, Some 4, Some 5, Some 6, Some 7, Some 8],
      cblank_val = 8\<rparr>"

text \<open>The 2x2 engine of fifteen.js after \<open>slide(1)\<close> and \<open>slide(0)\<close>: the blank is at index 0.\<close>

abbreviation corner2 :: puzzle where
  "corner2 \<equiv> \<lparr>psize = 2, board = of_list [Some 3, Some 0, Some 2, Some 1],
               solvedBoard = of_list [Some 0, Some 1, Some 2, Some 3],
               blank_val = 3, blank_x = Fin 0, blank_y = Fin 0\<rparr>"

text \<open>The freshly constructed 2x2 engines, used as concrete inputs below.\<close>

abbreviation fresh2 :: puzzle where
  "fresh2 \<equiv> \<lparr>psize = 2, board = of_list [Some 0, Some 1, Some 2, Some 3],
              solvedBoard = of_list [Some 0, Some 1, Some 2, Some 3],
              blank_val = 3, blank_x = Fin 1, blank_y = Fin 1\<rparr>"

abbreviation fresh2_chain :: cpuzzle where
  "fresh2_chain \<equiv> \<lparr>csize = 2, cboard = of_list [Some 0, Some 1, Some 2, Some 3],
                    cblank_val = 3\<rparr>"

text \<open>A random source for concrete runs: the draws 0, 0, 1 and then 0 for ever.\<close>

abbreviation draws :: "nat stream" where
  "draws \<equiv> 0 ## 0 ## Suc 0 ## sconst 0"

section \<open>Arrays and construction\<close>

lemma keys_length: "length (keys n) = nat n"
  by (simp add: keys_def)

lemma keys_nth: "k < nat n \<Longrightarrow> keys n ! k = Some (int k)"
  by (simp add: keys_def)

lemma elems_of_list: "elems (of_list xs) = xs"
  by (simp add: of_list_def)

lemma arr_get_of_list: "k < length xs \<Longrightarrow> arr_get (of_list xs) (int k) = xs ! k"
  by (simp add: arr_get_def of_list_def)

lemma every_same:
  "list_all (\<lambda>(idx, tileVal). tileVal = arr_get (of_list xs) (int idx)) (enumerate 0 xs)"
  by (auto simp: list_all_iff in_set_enumerate_eq arr_get_of_list)

lemma small_square: "\<bar>sz\<bar> \<le> 65535 \<Longrightarrow> sz * sz < (4294967296::int)"
proof -
  assume a: "\<bar>sz\<bar> \<le> 65535"
  have "sz * sz = \<bar>sz\<bar> * \<bar>sz\<bar>" by simp
  also have "\<dots> \<le> 65535 * 65535" using a by (intro mult_mono) auto
  finally show ?thesis by simp
qed

lemma constructor_solved: "constructor sz = Inr p \<Longrightarrow> solved p"
  by (auto simp: constructor_def solved_def every_same elems_of_list split: if_splits)

lemma constructor_chain_solved: "constructor_chain sz = Inr q \<Longrightarrow> solved_chain q = Inr True"
  by (auto simp: constructor_chain_def solved_chain_def every_same elems_of_list
      split: if_splits)

section \<open>Claims about construction\<close>

text \<open>
  C7, as the code has it. Neither constructor checks its size, so a size below 2 is not
  refused: for every integer size less than 2, an engine that construction returns has
  that size and the board \<open>0, ..., size*size - 1\<close>, and for the sizes 1, 0 and -1
  construction does return one.
\<close>

theorem construction_unchecked:
  assumes "sz < 2"
  shows "(\<forall>p. constructor sz = Inr p \<longrightarrow> psize p = sz \<and> elems (board p) = keys (sz * sz))
       \<and> (\<forall>q. constructor_chain sz = Inr q \<longrightarrow> csize q = sz \<and> elems (cboard q) = keys (sz * sz))
       \<and> (- 1 \<le> sz \<longrightarrow> (\<exists>p. constructor sz = Inr p) \<and> (\<exists>q. constructor_chain sz = Inr q))"
proof (intro conjI allI impI)
  fix p assume "constructor sz = Inr p"
  then show "psize p = sz" "elems (board p) = keys (sz * sz)"
    by (auto simp: constructor_def of_list_def split: if_splits)
next
  fix q assume "constructor_chain sz = Inr q"
  then show "csize q = sz" "elems (cboard q) = keys (sz * sz)"
    by (auto simp: constructor_chain_def of_list_def split: if_splits)
next
  assume "- 1 \<le> sz"
  with assms have "\<bar>sz\<bar> \<le> 65535" by simp
  from small_square [OF this]
  show "\<exists>p. constructor sz = Inr p" "\<exists>q. constructor_chain sz = Inr q"
    by (simp_all add: constructor_def constructor_chain_def)
qed

theorem construction_unchecked_witness:
  "(0::int) < 2
   \<and> (\<exists>p. constructor 0 = Inr p \<and> psize p = 0 \<and> elems (board p) = [])
   \<and> (\<exists>q. constructor_chain 0 = Inr q \<and> csize q = 0 \<and> elems (cboard q) = [])"
  using construction_unchecked [of 0] by (auto simp: keys_def)

text \<open>
  C7 as stated fails: size 1 is less than 2, and both constructors return the engine
  with the one-cell board.
\<close>

theorem construction_size_one_succeeds:
  "constructor 1 = Inr \<lparr>psize = 1, board = of_list [Some 0], solvedBoard = of_list [Some 0],
                         blank_val = 0, blank_x = Fin 0, blank_y = Fin 0\<rparr>
   \<and> constructor_chain 1 = Inr \<lparr>csize = 1, cboard = of_list [Some 0], cblank_val = 0\<rparr>"
  by (simp add: constructor_def constructor_chain_def keys_def)

text \<open>
  C9. For every size of at least 2, the board of a freshly constructed engine is the
  identity sequence \<open>0, 1, ..., size*size - 1\<close> and \<open>solved()\<close> returns true on it, in
  both files. Construction does return an engine up to size 65535; from 65536 on the
  array allocation throws and there is no engine to speak of.
\<close>

theorem fresh_board_identity_solved:
  assumes "2 \<le> sz"
  shows "(sz \<le> 65535 \<longrightarrow> (\<exists>p. constructor sz = Inr p) \<and> (\<exists>q. constructor_chain sz = Inr q))
       \<and> (\<forall>p. constructor sz = Inr p \<longrightarrow>
             length (elems (board p)) = nat (sz * sz)
             \<and> (\<forall>k < nat (sz * sz). elems (board p) ! k = Some (int k))
             \<and> solved p)
       \<and> (\<forall>q. constructor_chain sz = Inr q \<longrightarrow>
             length (elems (cboard q)) = nat (sz * sz)
             \<and> (\<forall>k < nat (sz * sz). elems (cboard q) ! k = Some (int k))
             \<and> solved_chain q = Inr True)"
proof (intro conjI allI impI)
  assume "sz \<le> 65535"
  with assms have "\<bar>sz\<bar> \<le> 65535" by simp
  from small_square [OF this]
  show "\<exists>p. constructor sz = Inr p" and "\<exists>q. constructor_chain sz = Inr q"
    by (simp_all add: constructor_def constructor_chain_def)
next
  fix p assume c: "constructor sz = Inr p"
  then have b: "elems (board p) = keys (sz * sz)"
    by (auto simp: constructor_def of_list_def split: if_splits)
  show "length (elems (board p)) = nat (sz * sz)"
    by (simp add: b keys_length)
  show "solved p"
    by (rule constructor_solved [OF c])
  fix k assume "k < nat (sz * sz)"
  then show "elems (board p) ! k = Some (int k)"
    by (simp add: b keys_nth)
next
  fix q assume c: "constructor_chain sz = Inr q"
  then have b: "elems (cboard q) = keys (sz * sz)"
    by (auto simp: constructor_chain_def of_list_def split: if_splits)
  show "length (elems (cboard q)) = nat (sz * sz)"
    by (simp add: b keys_length)
  show "solved_chain q = Inr True"
    by (rule constructor_chain_solved [OF c])
  fix k assume "k < nat (sz * sz)"
  then show "elems (cboard q) ! k = Some (int k)"
    by (simp add: b keys_nth)
qed

theorem fresh_board_identity_solved_witness:
  "(2::int) \<le> 2
   \<and> (\<exists>p. constructor 2 = Inr p \<and> elems (board p) = [Some 0, Some 1, Some 2, Some 3]
           \<and> solved p)
   \<and> (\<exists>q. constructor_chain 2 = Inr q \<and> elems (cboard q) = [Some 0, Some 1, Some 2, Some 3]
           \<and> solved_chain q = Inr True)"
  using fresh_board_identity_solved [of 2]
  by (auto simp: constructor_def constructor_chain_def keys_def of_list_def upt_conv_Cons)

section \<open>Solvability\<close>

lemma js_rem_two_one: "js_eq (js_rem a 2) (Fin 1) \<longleftrightarrow> 0 \<le> a \<and> odd a"
  unfolding js_rem_def js_eq_def
  by (cases "0 \<le> a") (auto simp: sgn_if abs_if odd_iff_mod_2_eq_one; presburger)+

lemma js_rem_two_zero: "js_eq (js_rem a 2) (Fin 0) \<longleftrightarrow> even a"
  unfolding js_rem_def js_eq_def
  by (auto simp: sgn_if abs_if; presburger)

lemmas eval_coords = x_of_def y_of_def i_of_def js_rem_def js_floor_div_def js_eq_def num_rem_def

lemmas eval_inversions = inversions_def inversions_chain_def inversions_of_def of_list_def
  enumerate_eq_zip upt_conv_Cons

text \<open>
  C1, as the code has it. With an even size, \<open>solvable()\<close> tests the parity of the blank's
  row counted from the bottom edge starting at 1 (the bottom row is row 1, so the row
  with zero-based top-down index \<open>y\<close> is row \<open>size - y\<close>): it returns true exactly when
  "that row is odd" equals "the number of inversions is even". The blank is on the
  board, so its row index \<open>y\<close> is not negative.
\<close>

theorem solvable_even_size:
  "(even (psize p) \<and> blank_y p = Fin y \<and> 0 \<le> y \<longrightarrow>
      solvable p = (odd (psize p - y) = (inversions p mod 2 = 0)))
   \<and> (even (csize q) \<and> y_of (csize q) (blank_i q) = Fin y' \<and> 0 \<le> y' \<longrightarrow>
      solvable_chain q = (odd (csize q - y') = (inversions_chain q mod 2 = 0)))"
  by (simp add: solvable_def solvable_chain_def js_rem_two_one js_rem_two_zero num_rem_def)

theorem solvable_even_size_witness:
  "even (psize fresh2) \<and> blank_y fresh2 = Fin 1
   \<and> solvable fresh2 = (odd (2 - 1 :: int) = (inversions fresh2 mod 2 = 0))
   \<and> even (csize fresh2_chain) \<and> y_of (csize fresh2_chain) (blank_i fresh2_chain) = Fin 1
   \<and> solvable_chain fresh2_chain = (odd (2 - 1 :: int) = (inversions_chain fresh2_chain mod 2 = 0))"
  using solvable_even_size [of fresh2 1 fresh2_chain 1]
  by (simp add: eval_coords blank_i_def of_list_def)

text \<open>
  C1 as stated fails. On the fresh 2x2 board the blank is in row \<open>y = 1\<close>, so the row
  index counted from the bottom edge, \<open>size - 1 - y\<close>, is 0 and not odd, while the number of
  inversions is 0 and even: the stated condition is false, yet both files answer that
  the board is solvable.
\<close>

theorem solvable_fresh_two_by_two:
  "solvable fresh2 \<and> solvable_chain fresh2_chain
   \<and> inversions fresh2 mod 2 = 0 \<and> inversions_chain fresh2_chain mod 2 = 0
   \<and> blank_y fresh2 = Fin 1 \<and> y_of (csize fresh2_chain) (blank_i fresh2_chain) = Fin 1
   \<and> \<not> (((psize fresh2 - 1 - 1) mod 2 = 1) = (inversions fresh2 mod 2 = 0))
   \<and> \<not> (((csize fresh2_chain - 1 - 1) mod 2 = 1) = (inversions_chain fresh2_chain mod 2 = 0))"
  by (simp add: solvable_def solvable_chain_def eval_inversions eval_coords blank_i_def)

section \<open>Illegal moves\<close>

lemma sqrt_dist_one: "sqrt (real_of_int d) = 1 \<longleftrightarrow> d = 1"
  by simp

lemma euclid_one_iff:
  "euclid_one p ident =
     (case (x_of (psize p) ident, y_of (psize p) ident, blank_x p, blank_y p) of
        (Fin sx, Fin sy, Fin cx, Fin cy) \<Rightarrow> (sx - cx)\<^sup>2 + (sy - cy)\<^sup>2 = 1
      | _ \<Rightarrow> False)"
  unfolding euclid_one_def sqrt_dist_one ..

lemma slide_euclid:
  "slide p ident = (if euclid_one p ident then (True, snd (slide p ident)) else (False, p))"
  by (simp add: euclid_one_iff slide_def Let_def split: jsnum.splits)

lemma slide_chain_legal:
  "slide_chain q i = Some (ok, q') \<Longrightarrow> ok = (same_column q i \<noteq> same_row q i)"
  by (auto simp: slide_chain_def same_column_def same_row_def Let_def split: if_splits)

text \<open>
  C5. In both files a call of \<open>slide\<close> with an illegal target returns false, and the whole
  state, the board included, is what it was before the call. Illegal is a target at a
  distance other than 1 from the blank (fifteen.js), or one that shares both or neither
  of its row and column with the blank (part_001). In neither file does a call that
  returns false change anything.
\<close>

theorem illegal_slide_unchanged:
  "(\<not> euclid_one p ident \<longrightarrow> slide p ident = (False, p))
   \<and> (same_column q i = same_row q i \<longrightarrow> slide_chain q i = Some (False, q))
   \<and> (\<not> fst (slide p ident) \<longrightarrow> snd (slide p ident) = p)
   \<and> (slide_chain q i = Some (False, q') \<longrightarrow> q' = q)"
proof (intro conjI impI)
  assume "\<not> euclid_one p ident"
  then show "slide p ident = (False, p)"
    by (subst slide_euclid) simp
next
  assume "same_column q i = same_row q i"
  then show "slide_chain q i = Some (False, q)"
    by (auto simp: slide_chain_def same_column_def same_row_def Let_def)
next
  assume "\<not> fst (slide p ident)"
  then show "snd (slide p ident) = p"
    by (subst slide_euclid, subst (asm) slide_euclid) (simp split: if_splits)
next
  assume "slide_chain q i = Some (False, q')"
  then show "q' = q"
    by (auto simp: slide_chain_def Let_def split: if_splits)
qed

theorem illegal_slide_unchanged_witness:
  "\<not> euclid_one fresh2 0 \<and> slide fresh2 0 = (False, fresh2)
   \<and> same_column fresh2_chain 3 = same_row fresh2_chain 3
   \<and> slide_chain fresh2_chain 3 = Some (False, fresh2_chain)
   \<and> \<not> fst (slide fresh2 0) \<and> snd (slide fresh2 0) = fresh2"
  using illegal_slide_unchanged [of fresh2 0 fresh2_chain 3 fresh2_chain]
  by (simp add: euclid_one_iff same_column_def same_row_def eval_coords blank_i_def of_list_def)

section \<open>Permutations, shuffling and coordinates\<close>

subsection \<open>indexOf\<close>

lemma indexOf_bounds: "- 1 \<le> indexOf xs v \<and> indexOf xs v < int (length xs)"
  by (induction xs) (auto simp: Let_def)

lemma indexOf_mem: "v \<in> set xs \<Longrightarrow> 0 \<le> indexOf xs v \<and> xs ! nat (indexOf xs v) = v"
proof (induction xs)
  case Nil
  then show ?case by simp
next
  case (Cons x xs)
  show ?case
  proof (cases "x = v")
    case True
    then show ?thesis by simp
  next
    case False
    with Cons.prems have "v \<in> set xs" by simp
    from Cons.IH [OF this] False show ?thesis
      by (simp add: Let_def nat_add_distrib)
  qed
qed

lemma indexOf_distinct:
  "distinct xs \<Longrightarrow> j < length xs \<Longrightarrow> xs ! j = v \<Longrightarrow> indexOf xs v = int j"
proof (induction xs arbitrary: j)
  case Nil
  then show ?case by simp
next
  case (Cons x xs)
  show ?case
  proof (cases j)
    case 0
    with Cons.prems show ?thesis by simp
  next
    case (Suc j')
    with Cons.prems have j': "j' < length xs" "xs ! j' = v" "distinct xs" by simp_all
    then have "v \<in> set xs" by auto
    with Cons.prems have "x \<noteq> v" by auto
    with Cons.IH [OF j'(3) j'(1) j'(2)] Suc show ?thesis
      by (simp add: Let_def)
  qed
qed

subsection \<open>permutations\<close>

lemma distinct_keys: "distinct (keys m)"
  by (simp add: keys_def distinct_map inj_on_def)

lemma set_keys: "set (keys m) = {Some v | v. 0 \<le> v \<and> v < m}"
proof -
  have "\<And>v. 0 \<le> v \<Longrightarrow> v < m \<Longrightarrow> Some v \<in> (\<lambda>i. Some (int i)) ` {0..<nat m}"
  proof -
    fix v :: int assume "0 \<le> v" "v < m"
    then have "nat v \<in> {0..<nat m}" "Some v = Some (int (nat v))" by auto
    then show "Some v \<in> (\<lambda>i. Some (int i)) ` {0..<nat m}" by (rule_tac image_eqI)
  qed
  then show ?thesis by (auto simp: keys_def)
qed

lemma permutation_distinct: "is_permutation n xs \<Longrightarrow> distinct xs"
  unfolding is_permutation_def
  using distinct_keys mset_eq_imp_distinct_iff by blast

lemma permutation_set: "is_permutation n xs \<Longrightarrow> set xs = {Some v | v. 0 \<le> v \<and> v < n * n}"
  unfolding is_permutation_def
  using mset_eq_setD set_keys by metis

lemma permutation_length: "is_permutation n xs \<Longrightarrow> length xs = nat (n * n)"
  unfolding is_permutation_def
  using mset_eq_length keys_length by metis

lemma permutation_keys: "is_permutation n (keys (n * n))"
  by (simp add: is_permutation_def)

lemma permutation_blank:
  assumes "is_permutation n xs" "0 < n"
  shows "0 \<le> indexOf xs (Some (n * n - 1))" "indexOf xs (Some (n * n - 1)) < n * n"
    "xs ! nat (indexOf xs (Some (n * n - 1))) = Some (n * n - 1)"
proof -
  from assms(2) have "0 < n * n" by simp
  then have "Some (n * n - 1) \<in> set xs"
    by (simp add: permutation_set [OF assms(1)])
  from indexOf_mem [OF this]
  show "0 \<le> indexOf xs (Some (n * n - 1))"
    "xs ! nat (indexOf xs (Some (n * n - 1))) = Some (n * n - 1)" by simp_all
  from indexOf_bounds [of xs "Some (n * n - 1)"] permutation_length [OF assms(1)] \<open>0 < n * n\<close>
  show "indexOf xs (Some (n * n - 1)) < n * n" by simp
qed

subsection \<open>shuffle\<close>

lemma mset_remove_nth: "k < length xs \<Longrightarrow> mset (take k xs @ drop (Suc k) xs) + {#xs ! k#} = mset xs"
proof -
  assume "k < length xs"
  from id_take_nth_drop [OF this] have "mset xs = mset (take k xs @ xs ! k # drop (Suc k) xs)"
    by simp
  then show ?thesis by simp
qed

lemma mset_shuffle_loop: "mset (fst (shuffle_loop rs arr acc)) = mset acc + mset arr"
proof (induction rs arr acc rule: shuffle_loop.induct)
  case (1 rs arr acc)
  show ?case
  proof (cases "arr = []")
    case True
    then show ?thesis by (subst shuffle_loop.simps) simp
  next
    case False
    define k where "k = shd rs mod length arr"
    from False have k: "k < length arr" by (simp add: k_def)
    have "mset (fst (shuffle_loop rs arr acc))
          = mset (fst (shuffle_loop (stl rs) (take k arr @ drop (Suc k) arr) (acc @ [arr ! k])))"
      using False by (subst shuffle_loop.simps) (simp add: k_def Let_def)
    also have "\<dots> = mset (acc @ [arr ! k]) + mset (take k arr @ drop (Suc k) arr)"
      using "1.IH" [OF False k_def] .
    also have "\<dots> = mset acc + mset arr"
      using mset_remove_nth [OF k] by (simp add: ac_simps)
    finally show ?thesis .
  qed
qed

lemma mset_shuffle: "mset (fst (shuffle rs arr)) = mset arr"
  by (simp add: shuffle_def mset_shuffle_loop)

subsection \<open>coordinates\<close>

lemma x_of_pos: "0 < n \<Longrightarrow> 0 \<le> k \<Longrightarrow> x_of n k = Fin (k mod n)"
  by (auto simp: x_of_def js_rem_def sgn_if)

lemma y_of_pos: "0 < n \<Longrightarrow> y_of n k = Fin (k div n)"
  by (simp add: y_of_def js_floor_div_def)

lemma div_less_square:
  assumes "0 < n" "k < n * n"
  shows "k div n < (n::int)"
proof (rule ccontr)
  assume "\<not> k div n < n"
  then have "n * n \<le> n * (k div n)"
    using assms(1) by (intro mult_left_mono) auto
  moreover have "0 \<le> k mod n"
    using assms(1) by simp
  moreover have "k = n * (k div n) + k mod n"
    by simp
  ultimately show False
    using assms(2) by linarith
qed

lemma i_of_coords: "i_of n (k mod n) (k div n) = k"
  by (simp add: i_of_def)

lemma sq_sum_one: "(a::int)\<^sup>2 + c\<^sup>2 = 1 \<longleftrightarrow> (a = 0 \<and> \<bar>c\<bar> = 1) \<or> (\<bar>a\<bar> = 1 \<and> c = 0)"
proof (cases "a = 0 \<or> c = 0")
  case True
  then show ?thesis by (auto simp: power2_eq_1_iff)
next
  case False
  then have "1 \<le> a\<^sup>2" "1 \<le> c\<^sup>2" 
    using zero_less_power2 [of a] zero_less_power2 [of c] by linarith+
  with False show ?thesis by auto
qed

section \<open>The adjacent move and \<open>randomize\<close> keep the state consistent\<close>

subsection \<open>array access inside the elements\<close>

lemma arr_get_in: "0 \<le> i \<Longrightarrow> i < int (length (elems a)) \<Longrightarrow> arr_get a i = elems a ! nat i"
  by (simp add: arr_get_def)

lemma arr_set_in:
  "0 \<le> i \<Longrightarrow> i < int (length (elems a)) \<Longrightarrow> arr_set a i v = a\<lparr>elems := (elems a)[nat i := v]\<rparr>"
  by (simp add: arr_set_def)

subsection \<open>the adjacent move on a consistent state\<close>

lemma consistent_blank:
  assumes "consistent p"
  defines "b \<equiv> indexOf (elems (board p)) (Some (blank_val p))"
  shows "0 \<le> b" "b < psize p * psize p" "elems (board p) ! nat b = Some (blank_val p)"
    "blank_x p = Fin (b mod psize p)" "blank_y p = Fin (b div psize p)"
    "length (elems (board p)) = nat (psize p * psize p)"
proof -
  from assms(1) have n: "0 < psize p" and perm: "is_permutation (psize p) (elems (board p))"
    and bv: "blank_val p = psize p * psize p - 1"
    and cx: "blank_x p = x_of (psize p) b" and cy: "blank_y p = y_of (psize p) b"
    by (simp_all add: consistent_def b_def)
  from permutation_blank [OF perm n]
  show b: "0 \<le> b" "b < psize p * psize p" "elems (board p) ! nat b = Some (blank_val p)"
    by (simp_all add: b_def bv)
  show "blank_x p = Fin (b mod psize p)"
    by (simp add: cx x_of_pos [OF n b(1)])
  show "blank_y p = Fin (b div psize p)"
    by (simp add: cy y_of_pos [OF n])
  show "length (elems (board p)) = nat (psize p * psize p)"
    by (rule permutation_length [OF perm])
qed

lemma slide_consistent_eq:
  assumes "consistent p" "0 \<le> ident" "ident < psize p * psize p"
  shows "slide p ident =
     (if (ident mod psize p - indexOf (elems (board p)) (Some (blank_val p)) mod psize p)\<^sup>2
         + (ident div psize p - indexOf (elems (board p)) (Some (blank_val p)) div psize p)\<^sup>2 = 1
      then (True,
            p\<lparr>board := (board p)\<lparr>elems := (elems (board p))
                 [nat (indexOf (elems (board p)) (Some (blank_val p))) := elems (board p) ! nat ident,
                  nat ident := Some (blank_val p)]\<rparr>,
              blank_x := Fin (ident mod psize p), blank_y := Fin (ident div psize p)\<rparr>)
      else (False, p))"
proof -
  define b where "b = indexOf (elems (board p)) (Some (blank_val p))"
  define n where "n = psize p"
  note cb = consistent_blank [OF assms(1), folded b_def n_def]
  from assms(1) have n: "0 < n" by (simp add: consistent_def n_def)
  have sx: "x_of n ident = Fin (ident mod n)" by (rule x_of_pos [OF n assms(2)])
  have sy: "y_of n ident = Fin (ident div n)" by (rule y_of_pos [OF n])
  have len: "int (length (elems (board p))) = n * n"
    using cb(6) n by simp
  have g: "arr_get (board p) ident = elems (board p) ! nat ident"
    using assms(2,3) len by (simp add: arr_get_in n_def)
  have s1: "arr_set (board p) (i_of n (b mod n) (b div n)) v
            = (board p)\<lparr>elems := (elems (board p))[nat b := v]\<rparr>" for v
    using cb(1,2) len by (simp add: i_of_coords arr_set_in)
  have s2: "arr_set ((board p)\<lparr>elems := (elems (board p))[nat b := v]\<rparr>) ident w
            = (board p)\<lparr>elems := (elems (board p))[nat b := v, nat ident := w]\<rparr>" for v w
    using assms(2,3) len by (simp add: arr_set_in n_def)
  show ?thesis
    unfolding slide_def b_def [symmetric] n_def [symmetric]
    by (simp add: sx sy cb(4,5) g s1 s2 Let_def)
qed

lemma slide_consistent:
  assumes "consistent p" "0 \<le> ident" "ident < psize p * psize p"
  shows "consistent (snd (slide p ident))"
proof -
  define n where "n = psize p"
  define xs where "xs = elems (board p)"
  define b where "b = indexOf xs (Some (blank_val p))"
  note cb = consistent_blank [OF assms(1), folded n_def xs_def, folded b_def]
  note eq = slide_consistent_eq [OF assms, folded n_def xs_def, folded b_def]
  from assms(1) have n: "0 < n" and perm: "is_permutation n xs"
    and bv: "blank_val p = n * n - 1"
    by (simp_all add: consistent_def n_def xs_def)
  show ?thesis
  proof (cases "(ident mod n - b mod n)\<^sup>2 + (ident div n - b div n)\<^sup>2 = 1")
    case False
    then show ?thesis
      using assms(1) by (simp add: eq)
  next
    case True
    define ys where "ys = xs[nat b := xs ! nat ident, nat ident := Some (blank_val p)]"
    have il: "nat ident < length xs" and bl: "nat b < length xs"
      using assms(2,3) cb(1,2,6) n by (simp_all add: n_def nat_less_iff)
    have "ys = xs[nat b := xs ! nat ident, nat ident := xs ! nat b]"
      by (simp add: ys_def cb(3))
    then have "mset ys = mset xs"
      using mset_swap [OF il bl] by simp
    then have perm': "is_permutation n ys"
      using perm by (simp add: is_permutation_def)
    have "ys ! nat ident = Some (blank_val p)"
      using il by (simp add: ys_def)
    moreover have "nat ident < length ys"
      using il by (simp add: ys_def)
    ultimately have idx: "indexOf ys (Some (blank_val p)) = ident"
      using indexOf_distinct [OF permutation_distinct [OF perm']] assms(2) by force
    have "snd (slide p ident)
          = p\<lparr>board := (board p)\<lparr>elems := ys\<rparr>,
              blank_x := Fin (ident mod n), blank_y := Fin (ident div n)\<rparr>"
      using True by (simp add: eq ys_def)
    then show ?thesis
      using n perm' bv idx
      by (simp add: consistent_def n_def [symmetric] x_of_pos [OF n assms(2)] y_of_pos [OF n])
  qed
qed

subsection \<open>randomize\<close>

lemma reshuffled_consistent:
  assumes "consistent p" "mset arr = mset (elems (board p))"
  shows "consistent (reshuffled p arr)"
  using assms by (simp add: consistent_def reshuffled_def Let_def is_permutation_def elems_of_list)

lemma randomize_result:
  assumes "randomize rs p = Some y"
  shows "solvable (fst y) \<and> psize (fst y) = psize p \<and> (consistent p \<longrightarrow> consistent (fst y))"
proof (rule randomize.raw_induct
    [where P = "\<lambda>rs p y. solvable (fst y) \<and> psize (fst y) = psize p \<and> (consistent p \<longrightarrow> consistent (fst y))",
      OF _ assms])
  fix f rs p y
  assume IH: "\<And>rs p y. f rs p = Some y
                \<Longrightarrow> solvable (fst y) \<and> psize (fst y) = psize p \<and> (consistent p \<longrightarrow> consistent (fst y))"
    and body: "(let p' = reshuffled p (fst (shuffle rs (elems (board p))));
                    rs' = snd (shuffle rs (elems (board p)))
                in if solvable p' then Some (p', rs') else f rs' p') = Some y"
  define q where "q = reshuffled p (fst (shuffle rs (elems (board p))))"
  have cq: "consistent p \<Longrightarrow> consistent q"
    unfolding q_def by (rule reshuffled_consistent) (simp_all add: mset_shuffle)
  have sq: "psize q = psize p"
    by (simp add: q_def reshuffled_def Let_def)
  show "solvable (fst y) \<and> psize (fst y) = psize p \<and> (consistent p \<longrightarrow> consistent (fst y))"
  proof (cases "solvable q")
    case True
    with body have "fst y = q" by (auto simp: q_def Let_def)
    with True cq sq show ?thesis by simp
  next
    case False
    with body have "f (snd (shuffle rs (elems (board p)))) q = Some y"
      by (simp add: q_def Let_def)
    from IH [OF this] cq sq show ?thesis by simp
  qed
qed

lemma randomize_chain_result:
  assumes "randomize_chain rs p = Some y"
  shows "solvable_chain (fst y) \<and> csize (fst y) = csize p
      \<and> (consistent_chain p \<longrightarrow> consistent_chain (fst y))"
proof (rule randomize_chain.raw_induct
    [where P = "\<lambda>rs p y. solvable_chain (fst y) \<and> csize (fst y) = csize p
                  \<and> (consistent_chain p \<longrightarrow> consistent_chain (fst y))",
      OF _ assms])
  fix f rs p y
  assume IH: "\<And>rs p y. f rs p = Some y
                \<Longrightarrow> solvable_chain (fst y) \<and> csize (fst y) = csize p
      \<and> (consistent_chain p \<longrightarrow> consistent_chain (fst y))"
    and body: "(let p' = p\<lparr>cboard := of_list (fst (shuffle rs (elems (cboard p))))\<rparr>;
                    rs' = snd (shuffle rs (elems (cboard p)))
                in if solvable_chain p' then Some (p', rs') else f rs' p') = Some y"
  define q where "q = p\<lparr>cboard := of_list (fst (shuffle rs (elems (cboard p))))\<rparr>"
  have cq: "consistent_chain p \<Longrightarrow> consistent_chain q"
    unfolding q_def
    by (simp add: consistent_chain_def is_permutation_def elems_of_list mset_shuffle)
  have sq: "csize q = csize p"
    by (simp add: q_def)
  show "solvable_chain (fst y) \<and> csize (fst y) = csize p
      \<and> (consistent_chain p \<longrightarrow> consistent_chain (fst y))"
  proof (cases "solvable_chain q")
    case True
    with body have "fst y = q" by (auto simp: q_def Let_def)
    with True cq sq show ?thesis by simp
  next
    case False
    with body have "f (snd (shuffle rs (elems (cboard p)))) q = Some y"
      by (simp add: q_def Let_def)
    from IH [OF this] cq sq show ?thesis by simp
  qed
qed

lemma last_cell:
  assumes "0 < (n::int)"
  shows "(n * n - 1) mod n = n - 1" "(n * n - 1) div n = n - 1"
proof -
  have e: "n * n - 1 = (n - 1) + (n - 1) * n"
    by (simp add: algebra_simps)
  show "(n * n - 1) mod n = n - 1"
    using assms by (subst e, subst mod_mult_self1) (simp add: zmod_minus1)
  show "(n * n - 1) div n = n - 1"
    using assms by (subst e, subst div_mult_self1) simp_all
qed

lemma indexOf_keys_last: "0 < m \<Longrightarrow> indexOf (keys m) (Some (m - 1)) = m - 1"
  using indexOf_distinct [OF distinct_keys, of "nat (m - 1)" m "Some (m - 1)"]
  by (simp add: keys_length keys_nth)

lemma constructor_consistent:
  assumes "0 < sz" "constructor sz = Inr p"
  shows "consistent p" "psize p = sz"
proof -
  from assms(2) have p: "p = \<lparr>psize = sz, board = of_list (keys (sz * sz)),
      solvedBoard = of_list (keys (sz * sz)), blank_val = sz * sz - 1,
      blank_x = Fin (sz - 1), blank_y = Fin (sz - 1)\<rparr>"
    by (auto simp: constructor_def split: if_splits)
  from assms(1) have sq: "0 < sz * sz" by simp
  show "psize p = sz" by (simp add: p)
  show "consistent p"
    using assms(1) sq
    by (simp add: p consistent_def elems_of_list permutation_keys indexOf_keys_last
        x_of_pos y_of_pos last_cell)
qed

lemma constructor_chain_consistent:
  "0 < sz \<Longrightarrow> constructor_chain sz = Inr p \<Longrightarrow> consistent_chain p \<and> csize p = sz"
  by (auto simp: constructor_chain_def consistent_chain_def elems_of_list permutation_keys
      split: if_splits)

lemma reachable_consistent: "reachable sz p \<Longrightarrow> 0 < sz \<Longrightarrow> consistent p \<and> psize p = sz"
proof (induction rule: reachable.induct)
  case (fresh p)
  then show ?case using constructor_consistent by blast
next
  case (randomized p rs p' rs')
  from randomize_result [OF randomized.hyps(2)] randomized.IH [OF randomized.prems]
  show ?case by simp
next
  case (slid p ident ok p')
  then have c: "consistent p" "psize p = sz" by simp_all
  from slid.hyps(2,3) c(2) have r: "0 \<le> ident" "ident < psize p * psize p" by simp_all
  from slide_consistent [OF c(1) r] slid.hyps(4) have "consistent p'" by simp
  moreover have "psize p' = psize p"
    using slid.hyps(4) by (simp add: slide_consistent_eq [OF c(1) r] split: if_splits) auto
  ultimately show ?case using c by simp
qed

section \<open>Claims about \<open>randomize\<close>\<close>

lemma shuffle_draws: "shuffle draws [Some 0, Some 1, Some 2, Some 3] = ([Some 0, Some 1, Some 3, Some 2], sconst 0)"
  by (simp add: shuffle_def shuffle_loop.simps Let_def)

text \<open>
  C6. Whenever \<open>randomize()\<close> returns, in either file, \<open>solvable()\<close> is true of the state
  it leaves, whatever the size and the state it started from. (The loop has no bound: on
  a random source that keeps drawing an unsolvable order it does not return.)
\<close>

theorem randomize_returns_solvable:
  "(randomize rs p = Some (p', rs') \<longrightarrow> solvable p')
   \<and> (randomize_chain rs q = Some (q', rs'') \<longrightarrow> solvable_chain q')"
  using randomize_result [of rs p "(p', rs')"] randomize_chain_result [of rs q "(q', rs'')"]
  by simp

theorem randomize_returns_solvable_witness:
  "randomize draws fresh2
     = Some (\<lparr>psize = 2, board = of_list [Some 0, Some 1, Some 3, Some 2],
               solvedBoard = of_list [Some 0, Some 1, Some 2, Some 3],
               blank_val = 3, blank_x = Fin 0, blank_y = Fin 1\<rparr>, sconst 0)
   \<and> solvable \<lparr>psize = 2, board = of_list [Some 0, Some 1, Some 3, Some 2],
               solvedBoard = of_list [Some 0, Some 1, Some 2, Some 3],
               blank_val = 3, blank_x = Fin 0, blank_y = Fin 1\<rparr>
   \<and> randomize_chain draws fresh2_chain
     = Some (\<lparr>csize = 2, cboard = of_list [Some 0, Some 1, Some 3, Some 2], cblank_val = 3\<rparr>,
             sconst 0)
   \<and> solvable_chain \<lparr>csize = 2, cboard = of_list [Some 0, Some 1, Some 3, Some 2],
                      cblank_val = 3\<rparr>"
proof -
  have s: "solvable \<lparr>psize = 2, board = of_list [Some 0, Some 1, Some 3, Some 2],
               solvedBoard = of_list [Some 0, Some 1, Some 2, Some 3],
               blank_val = 3, blank_x = Fin 0, blank_y = Fin 1\<rparr>"
    by (simp add: solvable_def eval_inversions eval_coords)
  have sc: "solvable_chain \<lparr>csize = 2, cboard = of_list [Some 0, Some 1, Some 3, Some 2],
                      cblank_val = 3\<rparr>"
    by (simp add: solvable_chain_def eval_inversions eval_coords blank_i_def)
  have r: "randomize draws fresh2
     = Some (\<lparr>psize = 2, board = of_list [Some 0, Some 1, Some 3, Some 2],
               solvedBoard = of_list [Some 0, Some 1, Some 2, Some 3],
               blank_val = 3, blank_x = Fin 0, blank_y = Fin 1\<rparr>, sconst 0)"
    using s by (subst randomize.simps)
      (simp add: elems_of_list shuffle_draws reshuffled_def Let_def eval_coords)
  have rc: "randomize_chain draws fresh2_chain
     = Some (\<lparr>csize = 2, cboard = of_list [Some 0, Some 1, Some 3, Some 2], cblank_val = 3\<rparr>,
             sconst 0)"
    using sc by (subst randomize_chain.simps) (simp add: elems_of_list shuffle_draws Let_def)
  from randomize_returns_solvable [of draws fresh2 _ "sconst 0" fresh2_chain _ "sconst 0"] r rc
  show ?thesis by simp
qed

section \<open>Claims about the adjacent move\<close>

lemma consistent_unique_blank:
  assumes "consistent p" "k < length (elems (board p))" "elems (board p) ! k = Some (blank_val p)"
  shows "int k = indexOf (elems (board p)) (Some (blank_val p))"
proof -
  from assms(1) have "is_permutation (psize p) (elems (board p))"
    by (simp add: consistent_def)
  then have "distinct (elems (board p))"
    by (rule permutation_distinct)
  from indexOf_distinct [OF this assms(2,3)] show ?thesis by simp
qed

lemma slide_fresh2: "slide fresh2 2 = (True, \<lparr>psize = 2, board = of_list [Some 0, Some 1, Some 3, Some 2],
               solvedBoard = of_list [Some 0, Some 1, Some 2, Some 3],
               blank_val = 3, blank_x = Fin 0, blank_y = Fin 1\<rparr>)"
  by (simp add: slide_def eval_coords arr_get_def arr_set_def of_list_def)

lemma slide_success_effect:
  assumes "consistent p" "0 \<le> ident" "ident < psize p * psize p" "fst (slide p ident)"
  defines "b \<equiv> indexOf (elems (board p)) (Some (blank_val p))"
  shows "(ident mod psize p - b mod psize p)\<^sup>2 + (ident div psize p - b div psize p)\<^sup>2 = 1"
    and "snd (slide p ident)
         = p\<lparr>board := (board p)\<lparr>elems := (elems (board p))
                 [nat b := elems (board p) ! nat ident, nat ident := Some (blank_val p)]\<rparr>,
             blank_x := Fin (ident mod psize p), blank_y := Fin (ident div psize p)\<rparr>"
    and "ident \<noteq> b"
    and "nat ident < length (elems (board p))" and "nat b < length (elems (board p))"
proof -
  note eq = slide_consistent_eq [OF assms(1-3), folded b_def]
  note cb = consistent_blank [OF assms(1), folded b_def]
  show d: "(ident mod psize p - b mod psize p)\<^sup>2 + (ident div psize p - b div psize p)\<^sup>2 = 1"
    using assms(4) by (simp add: eq split: if_splits)
  then show "snd (slide p ident)
         = p\<lparr>board := (board p)\<lparr>elems := (elems (board p))
                 [nat b := elems (board p) ! nat ident, nat ident := Some (blank_val p)]\<rparr>,
             blank_x := Fin (ident mod psize p), blank_y := Fin (ident div psize p)\<rparr>"
    by (simp add: eq)
  show "ident \<noteq> b"
    using d by auto
  from assms(1) have "0 < psize p" by (simp add: consistent_def)
  then show "nat ident < length (elems (board p))" "nat b < length (elems (board p))"
    using assms(2,3) cb(1,2,6) by (simp_all add: nat_less_iff)
qed

text \<open>
  C3. In fifteen.js, on a consistent state (every reachable state is one, lemma
  \<open>reachable_consistent\<close>) and for every board position \<open>ident\<close>: \<open>slide(ident)\<close> succeeds
  exactly when the Euclidean distance between the coordinates of \<open>ident\<close> and those of
  the blank is 1, which is exactly when \<open>ident\<close> is next to the blank in its column or in
  its row. On success the board holds the blank at \<open>ident\<close> and the tile that was at
  \<open>ident\<close> where the blank was, and the cached blank location is \<open>ident\<close>'s coordinates.
\<close>

theorem adjacent_slide:
  assumes "consistent p" "0 \<le> ident" "ident < psize p * psize p"
  shows "let n = psize p; b = indexOf (elems (board p)) (Some (blank_val p));
             p' = snd (slide p ident)
         in fst (slide p ident) = euclid_one p ident
          \<and> fst (slide p ident)
              = ((ident mod n = b mod n \<and> \<bar>ident div n - b div n\<bar> = 1)
                 \<or> (ident div n = b div n \<and> \<bar>ident mod n - b mod n\<bar> = 1))
          \<and> (fst (slide p ident) \<longrightarrow>
                elems (board p') ! nat ident = elems (board p) ! nat b
              \<and> elems (board p') ! nat b = elems (board p) ! nat ident
              \<and> elems (board p) ! nat b = Some (blank_val p)
              \<and> blank_x p' = x_of n ident \<and> blank_y p' = y_of n ident)"
proof -
  define n where "n = psize p"
  define b where "b = indexOf (elems (board p)) (Some (blank_val p))"
  define p' where "p' = snd (slide p ident)"
  note eq = slide_consistent_eq [OF assms, folded b_def n_def]
  note cb = consistent_blank [OF assms(1), folded b_def n_def]
  from assms(1) have n: "0 < n" by (simp add: consistent_def n_def)
  have l: "fst (slide p ident) = ((ident mod n - b mod n)\<^sup>2 + (ident div n - b div n)\<^sup>2 = 1)"
    by (simp add: eq)
  have e: "fst (slide p ident) = euclid_one p ident"
    by (subst slide_euclid) simp
  have o: "fst (slide p ident)
              = ((ident mod n = b mod n \<and> \<bar>ident div n - b div n\<bar> = 1)
                 \<or> (ident div n = b div n \<and> \<bar>ident mod n - b mod n\<bar> = 1))"
    unfolding l sq_sum_one by auto
  have s: "elems (board p') ! nat ident = elems (board p) ! nat b
              \<and> elems (board p') ! nat b = elems (board p) ! nat ident
              \<and> elems (board p) ! nat b = Some (blank_val p)
              \<and> blank_x p' = x_of n ident \<and> blank_y p' = y_of n ident"
    if ok: "fst (slide p ident)"
  proof -
    note ef = slide_success_effect [OF assms ok, folded b_def n_def p'_def]
    from ef(3) assms(2) cb(1) have "nat ident \<noteq> nat b" by simp
    then show ?thesis
      using ef(4,5) cb(3) by (simp add: ef(2) x_of_pos [OF n assms(2)] y_of_pos [OF n])
  qed
  show ?thesis
    unfolding Let_def n_def [symmetric] b_def [symmetric] p'_def [symmetric]
    using e o s by blast
qed

theorem adjacent_slide_witness:
  "consistent fresh2 \<and> fst (slide fresh2 2) \<and> euclid_one fresh2 2
   \<and> elems (board (snd (slide fresh2 2))) = [Some 0, Some 1, Some 3, Some 2]
   \<and> blank_x (snd (slide fresh2 2)) = Fin 0 \<and> blank_y (snd (slide fresh2 2)) = Fin 1
   \<and> \<not> fst (slide fresh2 0) \<and> \<not> euclid_one fresh2 0"
proof -
  have c: "consistent fresh2"
    using constructor_consistent [of 2 fresh2]
    by (simp add: constructor_def keys_def upt_conv_Cons)
  from adjacent_slide [OF c, of 2] adjacent_slide [OF c, of 0] c show ?thesis
    by (simp add: slide_fresh2 elems_of_list Let_def euclid_one_iff eval_coords)
qed

text \<open>
  C10. In fifteen.js a successful \<open>slide(ident)\<close> changes the board at exactly two
  indices: \<open>ident\<close> receives the blank value, the blank's previous index receives the
  tile that was at \<open>ident\<close>, both cells change, and every other cell keeps its value.
\<close>

theorem adjacent_slide_frame:
  assumes "consistent p" "0 \<le> ident" "ident < psize p * psize p" "fst (slide p ident)"
  shows "let b = indexOf (elems (board p)) (Some (blank_val p));
             old = elems (board p); new = elems (board (snd (slide p ident)))
         in length new = length old \<and> nat ident < length old \<and> nat b < length old
          \<and> nat ident \<noteq> nat b
          \<and> new ! nat ident = Some (blank_val p) \<and> new ! nat ident \<noteq> old ! nat ident
          \<and> new ! nat b = old ! nat ident \<and> new ! nat b \<noteq> old ! nat b
          \<and> (\<forall>k < length old. k \<noteq> nat ident \<and> k \<noteq> nat b \<longrightarrow> new ! k = old ! k)"
proof -
  define old where "old = elems (board p)"
  define b where "b = indexOf old (Some (blank_val p))"
  note cb = consistent_blank [OF assms(1), folded old_def, folded b_def]
  note ef = slide_success_effect [OF assms, folded old_def, folded b_def]
  define new where "new = elems (board (snd (slide p ident)))"
  have new: "new = old[nat b := old ! nat ident, nat ident := Some (blank_val p)]"
    by (simp add: new_def ef(2) old_def)
  from ef(3) assms(2) cb(1) have ne: "nat ident \<noteq> nat b" by simp
  from assms(1) have "is_permutation (psize p) old"
    by (simp add: consistent_def old_def)
  then have "distinct old" by (rule permutation_distinct)
  with ne ef(4,5) have diff: "old ! nat ident \<noteq> old ! nat b"
    by (simp add: nth_eq_iff_index_eq)
  have "length new = length old" by (simp add: new)
  moreover have "new ! nat ident = Some (blank_val p)"
    using ef(4) by (simp add: new)
  moreover have "new ! nat b = old ! nat ident"
    using ef(5) ne by (simp add: new)
  moreover have "\<forall>k < length old. k \<noteq> nat ident \<and> k \<noteq> nat b \<longrightarrow> new ! k = old ! k"
    by (simp add: new)
  ultimately show ?thesis
    unfolding Let_def old_def [symmetric] new_def [symmetric]
    unfolding b_def [symmetric]
    using ne ef(4,5) diff cb(3) by simp
qed

theorem adjacent_slide_frame_witness:
  "consistent fresh2 \<and> fst (slide fresh2 2)
   \<and> elems (board fresh2) = [Some 0, Some 1, Some 2, Some 3]
   \<and> elems (board (snd (slide fresh2 2))) = [Some 0, Some 1, Some 3, Some 2]"
proof -
  have c: "consistent fresh2"
    using constructor_consistent [of 2 fresh2]
    by (simp add: constructor_def keys_def upt_conv_Cons)
  from adjacent_slide_frame [OF c, of 2] c show ?thesis
    by (simp add: slide_fresh2 elems_of_list)
qed

section \<open>The loops of the chain move\<close>

subsection \<open>swapping inside the elements\<close>

lemma swap_in:
  assumes "0 \<le> i1" "i1 < int (length (elems a))" "0 \<le> i2" "i2 < int (length (elems a))"
  shows "swap a i1 i2
         = a\<lparr>elems := (elems a)[nat i1 := elems a ! nat i2, nat i2 := elems a ! nat i1]\<rparr>"
  using assms by (simp add: swap_def arr_get_in arr_set_in Let_def)

lemma nth_update2:
  assumes "0 \<le> k" "0 \<le> u" "0 \<le> v" "u < int (length xs)" "v < int (length xs)"
  shows "xs[nat u := p, nat v := q] ! nat k
         = (if k = v then q else if k = u then p else xs ! nat k)"
  using assms by (auto simp: nth_list_update)

lemma dvd_gap:
  assumes "0 < (d::int)" "a < b" "d dvd b - a"
  shows "a + d \<le> b"
proof -
  from assms(2) have "0 < b - a" by simp
  from zdvd_imp_le [OF assms(3) this] show ?thesis by simp
qed

lemma walk_down_spec:
  assumes "0 < d" "0 \<le> i" "i \<le> j" "j < int (length (elems a))" "d dvd j - i"
  shows "\<exists>r. walk_down d i j a = Some r \<and> props r = props a
            \<and> length (elems r) = length (elems a) \<and> mset (elems r) = mset (elems a)
            \<and> (\<forall>k. 0 \<le> k \<and> k < int (length (elems a)) \<longrightarrow>
                  elems r ! nat k =
                    (if k = i then elems a ! nat j
                     else if i < k \<and> k \<le> j \<and> d dvd k - i then elems a ! nat (k - d)
                     else elems a ! nat k))"
  using assms
proof (induction "nat (j - i)" arbitrary: j a rule: less_induct)
  case less
  show ?case
  proof (cases "i < j")
    case False
    with less.prems have "j = i" by simp
    then have "walk_down d i j a = Some a"
      by (subst walk_down.simps) simp
    with \<open>j = i\<close> show ?thesis by auto
  next
    case True
    define xs where "xs = elems a"
    define a' where "a' = swap a j (j - d)"
    from dvd_gap [OF less.prems(1) True less.prems(5)] have jd: "i \<le> j - d" by simp
    have a': "a' = a\<lparr>elems := xs[nat j := xs ! nat (j - d), nat (j - d) := xs ! nat j]\<rparr>"
      unfolding a'_def xs_def using less.prems jd by (intro swap_in) auto
    have len': "length (elems a') = length xs"
      by (simp add: a')
    have at': "elems a' ! nat k
               = (if k = j - d then xs ! nat j else if k = j then xs ! nat (j - d) else xs ! nat k)"
      if "0 \<le> k" for k
      unfolding a' using that less.prems jd by (simp add: nth_update2 xs_def)
    have mset': "mset (elems a') = mset xs"
      unfolding a' using less.prems jd mset_swap [of "nat (j - d)" xs "nat j"]
      by (simp add: xs_def)
    have "nat (j - d - i) < nat (j - i)"
      using less.prems(1) True by simp
    moreover have "j - d < int (length (elems a'))"
      using less.prems by (simp add: len' xs_def)
    moreover have dd: "d dvd j - d - i"
      using dvd_diff [OF less.prems(5) dvd_refl [of d]] by (simp add: algebra_simps)
    ultimately obtain r where r: "walk_down d i (j - d) a' = Some r" "props r = props a'"
      "length (elems r) = length (elems a')" "mset (elems r) = mset (elems a')"
      and at: "\<And>k. 0 \<le> k \<Longrightarrow> k < int (length (elems a')) \<Longrightarrow>
                  elems r ! nat k =
                    (if k = i then elems a' ! nat (j - d)
                     else if i < k \<and> k \<le> j - d \<and> d dvd k - i then elems a' ! nat (k - d)
                     else elems a' ! nat k)"
      using less.hyps [of "j - d" a'] less.prems(1,2) jd by blast
    have w: "walk_down d i j a = Some r"
      using True r(1) by (subst walk_down.simps) (simp add: a'_def)
    have "elems r ! nat k =
            (if k = i then xs ! nat j
             else if i < k \<and> k \<le> j \<and> d dvd k - i then xs ! nat (k - d)
             else xs ! nat k)"
      if k: "0 \<le> k" "k < int (length xs)" for k
    proof -
      consider (target) "k = i" | (moved) "k \<noteq> i" "i < k" "k \<le> j - d" "d dvd k - i"
        | (top) "k = j" | (other) "k \<noteq> i" "k \<noteq> j" "\<not> (i < k \<and> k \<le> j \<and> d dvd k - i)"
      proof -
        have "k \<le> j - d" if "i < k" "k \<le> j" "d dvd k - i" "k \<noteq> j"
        proof -
          have "d dvd j - k"
            using dvd_diff [OF less.prems(5) that(3)] by simp
          from dvd_gap [OF less.prems(1) _ this] that show ?thesis by simp
        qed
        then show thesis
          using target moved top other by blast
      qed
      then show ?thesis
      proof cases
        case target
        then show ?thesis
          using at [OF k(1)] k(2) less.prems(2) jd by (simp add: len' at')
      next
        case moved
        have "0 \<le> k - d" using moved(2) less.prems(2) jd
            dvd_gap [OF less.prems(1) moved(2) moved(4)] by simp
        then show ?thesis
          using at [OF k(1)] k(2) moved less.prems(1) by (simp add: len' at')
      next
        case top
        then show ?thesis
          using at [OF k(1)] k True less.prems(1,5) jd by (simp add: len' at')
      next
        case other
        have "k \<noteq> j - d"
          using other jd less.prems(1) dd by auto
        then show ?thesis
          using at [OF k(1)] k(2) other less.prems(1) by (auto simp: len' at' k(1))
      qed
    qed
    then show ?thesis
      using w r(2-4) len' mset' by (simp add: a' xs_def)
  qed
qed


lemma walk_up_spec:
  assumes "0 < d" "0 \<le> j" "j \<le> i" "i < int (length (elems a))" "d dvd i - j"
  shows "\<exists>r. walk_up d i j a = Some r \<and> props r = props a
            \<and> length (elems r) = length (elems a) \<and> mset (elems r) = mset (elems a)
            \<and> (\<forall>k. 0 \<le> k \<and> k < int (length (elems a)) \<longrightarrow>
                  elems r ! nat k =
                    (if k = i then elems a ! nat j
                     else if j \<le> k \<and> k < i \<and> d dvd i - k then elems a ! nat (k + d)
                     else elems a ! nat k))"
  using assms
proof (induction "nat (i - j)" arbitrary: j a rule: less_induct)
  case less
  show ?case
  proof (cases "j < i")
    case False
    with less.prems have "j = i" by simp
    then have "walk_up d i j a = Some a"
      by (subst walk_up.simps) simp
    with \<open>j = i\<close> show ?thesis by auto
  next
    case True
    define xs where "xs = elems a"
    define a' where "a' = swap a j (j + d)"
    from dvd_gap [OF less.prems(1) True less.prems(5)] have jd: "j + d \<le> i" by simp
    have a': "a' = a\<lparr>elems := xs[nat j := xs ! nat (j + d), nat (j + d) := xs ! nat j]\<rparr>"
      unfolding a'_def xs_def using less.prems jd by (intro swap_in) auto
    have len': "length (elems a') = length xs"
      by (simp add: a')
    have at': "elems a' ! nat k
               = (if k = j + d then xs ! nat j else if k = j then xs ! nat (j + d) else xs ! nat k)"
      if "0 \<le> k" for k
      unfolding a' using that less.prems jd by (simp add: nth_update2 xs_def)
    have mset': "mset (elems a') = mset xs"
      unfolding a' using less.prems jd mset_swap [of "nat (j + d)" xs "nat j"]
      by (simp add: xs_def)
    have "nat (i - (j + d)) < nat (i - j)"
      using less.prems(1) True by simp
    moreover have "i < int (length (elems a'))"
      using less.prems by (simp add: len' xs_def)
    moreover have dd: "d dvd i - (j + d)"
      using dvd_diff [OF less.prems(5) dvd_refl [of d]] by (simp add: algebra_simps)
    moreover have "0 \<le> j + d"
      using less.prems(1,2) by simp
    ultimately obtain r where r: "walk_up d i (j + d) a' = Some r" "props r = props a'"
      "length (elems r) = length (elems a')" "mset (elems r) = mset (elems a')"
      and at: "\<And>k. 0 \<le> k \<Longrightarrow> k < int (length (elems a')) \<Longrightarrow>
                  elems r ! nat k =
                    (if k = i then elems a' ! nat (j + d)
                     else if j + d \<le> k \<and> k < i \<and> d dvd i - k then elems a' ! nat (k + d)
                     else elems a' ! nat k)"
      using less.hyps [of "j + d" a'] less.prems(1) jd by blast
    have w: "walk_up d i j a = Some r"
      using True r(1) by (subst walk_up.simps) (simp add: a'_def)
    have "elems r ! nat k =
            (if k = i then xs ! nat j
             else if j \<le> k \<and> k < i \<and> d dvd i - k then xs ! nat (k + d)
             else xs ! nat k)"
      if k: "0 \<le> k" "k < int (length xs)" for k
    proof -
      consider (target) "k = i" | (moved) "k \<noteq> i" "j + d \<le> k" "k < i" "d dvd i - k"
        | (bottom) "k = j" | (other) "k \<noteq> i" "k \<noteq> j" "\<not> (j \<le> k \<and> k < i \<and> d dvd i - k)"
      proof -
        have "j + d \<le> k" if "j \<le> k" "k < i" "d dvd i - k" "k \<noteq> j"
        proof -
          have "d dvd k - j"
            using dvd_diff [OF less.prems(5) that(3)] by simp
          from dvd_gap [OF less.prems(1) _ this] that show ?thesis by simp
        qed
        then show thesis
          using target moved bottom other by blast
      qed
      then show ?thesis
      proof cases
        case target
        then show ?thesis
          using at [OF k(1)] k less.prems(1,2) jd by (simp add: len' at')
      next
        case moved
        then show ?thesis
          using at [OF k(1)] k less.prems(1,2) by (simp add: len' at')
      next
        case bottom
        then show ?thesis
          using at [OF k(1)] k True less.prems(1,5) jd by (simp add: len' at')
      next
        case other
        have "k \<noteq> j + d"
          using other jd less.prems(1) dd by auto
        then show ?thesis
          using at [OF k(1)] k(2) other less.prems(1) by (auto simp: len' at' k(1))
      qed
    qed
    then show ?thesis
      using w r(2-4) len' mset' by (simp add: a' xs_def)
  qed
qed

subsection \<open>both directions\<close>

lemma walk_spec:
  assumes "0 < d" "0 \<le> i" "i < int (length (elems a))" "0 \<le> b" "b < int (length (elems a))"
    "d dvd i - b"
  shows "\<exists>r. walk d i b a = Some r \<and> props r = props a
            \<and> length (elems r) = length (elems a) \<and> mset (elems r) = mset (elems a)
            \<and> (\<forall>k. 0 \<le> k \<and> k < int (length (elems a)) \<longrightarrow>
                  elems r ! nat k =
                    (if k = i then elems a ! nat b
                     else if min i b \<le> k \<and> k \<le> max i b \<and> d dvd k - i
                       then elems a ! nat (if i < b then k - d else k + d)
                     else elems a ! nat k))"
proof -
  consider (down) "i < b" | (up) "b < i" | (same) "b = i" by linarith
  then show ?thesis
  proof cases
    case down
    have "d dvd b - i"
      using assms(6) by (simp add: dvd_diff_commute)
    from walk_down_spec [OF assms(1,2) _ assms(5) this] down
    obtain r where r: "walk_down d i b a = Some r" "props r = props a"
      "length (elems r) = length (elems a)" "mset (elems r) = mset (elems a)"
      and at: "\<And>k. 0 \<le> k \<Longrightarrow> k < int (length (elems a)) \<Longrightarrow>
                  elems r ! nat k =
                    (if k = i then elems a ! nat b
                     else if i < k \<and> k \<le> b \<and> d dvd k - i then elems a ! nat (k - d)
                     else elems a ! nat k)"
      by (metis less_imp_le)
    have "walk d i b a = Some r"
      using down r(1) by (simp add: walk_def)
    moreover have "elems r ! nat k =
                    (if k = i then elems a ! nat b
                     else if min i b \<le> k \<and> k \<le> max i b \<and> d dvd k - i
                       then elems a ! nat (if i < b then k - d else k + d)
                     else elems a ! nat k)"
      if "0 \<le> k" "k < int (length (elems a))" for k
      using at [OF that] down by auto
    ultimately show ?thesis
      using r(2-4) by blast
  next
    case up
    from walk_up_spec [OF assms(1,4) _ assms(3,6)] up
    obtain r where r: "walk_up d i b a = Some r" "props r = props a"
      "length (elems r) = length (elems a)" "mset (elems r) = mset (elems a)"
      and at: "\<And>k. 0 \<le> k \<Longrightarrow> k < int (length (elems a)) \<Longrightarrow>
                  elems r ! nat k =
                    (if k = i then elems a ! nat b
                     else if b \<le> k \<and> k < i \<and> d dvd i - k then elems a ! nat (k + d)
                     else elems a ! nat k)"
      by (metis less_imp_le)
    have "walk d i b a = Some r"
      using up r(1) by (simp add: walk_def)
    moreover have "elems r ! nat k =
                    (if k = i then elems a ! nat b
                     else if min i b \<le> k \<and> k \<le> max i b \<and> d dvd k - i
                       then elems a ! nat (if i < b then k - d else k + d)
                     else elems a ! nat k)"
      if "0 \<le> k" "k < int (length (elems a))" for k
      using at [OF that] up by (auto simp: dvd_diff_commute [of d k i])
    ultimately show ?thesis
      using r(2-4) by blast
  next
    case same
    then have "walk d i b a = Some a"
      by (simp add: walk_def)
    with same show ?thesis by auto
  qed
qed

section \<open>The chain move on a consistent state\<close>

lemma js_eq_Fin: "js_eq (Fin u) (Fin v) \<longleftrightarrow> u = v"
  by (simp add: js_eq_def)

lemma consistent_chain_blank:
  assumes "consistent_chain p"
  shows "0 \<le> blank_i p" "blank_i p < csize p * csize p"
    "elems (cboard p) ! nat (blank_i p) = Some (cblank_val p)"
    "length (elems (cboard p)) = nat (csize p * csize p)"
proof -
  from assms have n: "0 < csize p" and perm: "is_permutation (csize p) (elems (cboard p))"
    and bv: "cblank_val p = csize p * csize p - 1"
    by (simp_all add: consistent_chain_def)
  from permutation_blank [OF perm n]
  show "0 \<le> blank_i p" "blank_i p < csize p * csize p"
    "elems (cboard p) ! nat (blank_i p) = Some (cblank_val p)"
    by (simp_all add: blank_i_def bv)
  show "length (elems (cboard p)) = nat (csize p * csize p)"
    by (rule permutation_length [OF perm])
qed

lemma consistent_chain_coords:
  assumes "consistent_chain p" "0 \<le> i"
  shows "same_column p i = (i mod csize p = blank_i p mod csize p)"
    "same_row p i = (i div csize p = blank_i p div csize p)"
proof -
  from assms(1) have n: "0 < csize p" by (simp add: consistent_chain_def)
  note cb = consistent_chain_blank [OF assms(1)]
  show "same_column p i = (i mod csize p = blank_i p mod csize p)"
    by (simp add: same_column_def x_of_pos [OF n assms(2)] x_of_pos [OF n cb(1)] js_eq_Fin)
  show "same_row p i = (i div csize p = blank_i p div csize p)"
    by (simp add: same_row_def y_of_pos [OF n] js_eq_Fin)
qed

lemma same_cell:
  "(i mod n = b mod n \<and> i div n = b div n) \<longleftrightarrow> i = (b::int)"
  by (metis div_mult_mod_eq)

lemma slide_chain_eq:
  "slide_chain p i =
     (if same_column p i \<and> same_row p i then Some (False, p)
      else if same_column p i \<or> same_row p i
        then map_option (\<lambda>a. (True, p\<lparr>cboard := a\<rparr>))
               (walk (step_of p i) i (blank_i p) (cboard p))
      else Some (False, p))"
  by (simp add: slide_chain_def same_column_def same_row_def step_of_def Let_def)

lemma slide_chain_legal_effect:
  assumes c: "consistent_chain p" and i: "0 \<le> i" "i < csize p * csize p"
    and legal: "same_column p i \<or> same_row p i" "i \<noteq> blank_i p"
  shows "\<exists>r. slide_chain p i = Some (True, p\<lparr>cboard := r\<rparr>) \<and> props r = props (cboard p)
           \<and> length (elems r) = length (elems (cboard p))
           \<and> mset (elems r) = mset (elems (cboard p))
           \<and> (\<forall>k. 0 \<le> k \<and> k < csize p * csize p \<longrightarrow>
                 elems r ! nat k =
                   (if k = i then Some (cblank_val p)
                    else if min i (blank_i p) \<le> k \<and> k \<le> max i (blank_i p)
                            \<and> step_of p i dvd k - i
                      then elems (cboard p) ! nat (k - toward_blank p i)
                    else elems (cboard p) ! nat k))"
proof -
  define n where "n = csize p"
  define b where "b = blank_i p"
  define d where "d = step_of p i"
  from c have n: "0 < n" by (simp add: consistent_chain_def n_def)
  note cb = consistent_chain_blank [OF c, folded n_def b_def]
  note co = consistent_chain_coords [OF c i(1), folded n_def b_def]
  have len: "int (length (elems (cboard p))) = n * n"
    using cb(4) n by simp
  have both: "\<not> (same_column p i \<and> same_row p i)"
    using legal(2) same_cell [of i n b] by (simp add: co b_def)
  have d: "0 < d" "d dvd i - b"
  proof -
    show "0 < d" using n by (simp add: d_def step_of_def n_def)
    show "d dvd i - b"
    proof (cases "same_column p i")
      case True
      then have "i mod n = b mod n" by (simp add: co)
      then have "n dvd i - b" by (simp add: mod_eq_dvd_iff)
      with True show ?thesis by (simp add: d_def step_of_def n_def)
    next
      case False
      then show ?thesis by (simp add: d_def step_of_def)
    qed
  qed
  from walk_spec [OF d(1) i(1) _ cb(1) _ d(2), of "cboard p"] i(2) cb(2) len
  obtain r where r: "walk d i b (cboard p) = Some r" "props r = props (cboard p)"
      "length (elems r) = length (elems (cboard p))"
      "mset (elems r) = mset (elems (cboard p))"
    and at: "\<And>k. 0 \<le> k \<Longrightarrow> k < n * n \<Longrightarrow>
                  elems r ! nat k =
                    (if k = i then elems (cboard p) ! nat b
                     else if min i b \<le> k \<and> k \<le> max i b \<and> d dvd k - i
                       then elems (cboard p) ! nat (if i < b then k - d else k + d)
                     else elems (cboard p) ! nat k)"
    unfolding n_def by auto
  have s: "slide_chain p i = Some (True, p\<lparr>cboard := r\<rparr>)"
    using both legal(1) r(1) by (simp add: slide_chain_eq d_def b_def)
  have t: "(if i < b then k - d else k + d) = k - toward_blank p i" for k
    by (simp add: toward_blank_def d_def b_def)
  have "elems r ! nat k =
                   (if k = i then Some (cblank_val p)
                    else if min i b \<le> k \<and> k \<le> max i b \<and> d dvd k - i
                      then elems (cboard p) ! nat (k - toward_blank p i)
                    else elems (cboard p) ! nat k)"
    if "0 \<le> k" "k < n * n" for k
    using at [OF that] by (simp add: t cb(3))
  then show ?thesis
    using s r(2-4) unfolding n_def b_def d_def by blast
qed

lemma slide_chain_consistent:
  assumes "consistent_chain p" "0 \<le> i" "i < csize p * csize p"
  shows "\<exists>ok p'. slide_chain p i = Some (ok, p') \<and> consistent_chain p' \<and> csize p' = csize p"
proof (cases "(same_column p i \<or> same_row p i) \<and> i \<noteq> blank_i p")
  case True
  from slide_chain_legal_effect [OF assms] True
  obtain r where "slide_chain p i = Some (True, p\<lparr>cboard := r\<rparr>)"
    "mset (elems r) = mset (elems (cboard p))" by blast
  with assms(1) show ?thesis
    by (auto simp: consistent_chain_def is_permutation_def)
next
  case False
  have "same_column p i = same_row p i"
  proof (cases "i = blank_i p")
    case True
    with consistent_chain_coords [OF assms(1,2)] show ?thesis by simp
  next
    case False
    with \<open>\<not> ((same_column p i \<or> same_row p i) \<and> i \<noteq> blank_i p)\<close> show ?thesis by simp
  qed
  then have "slide_chain p i = Some (False, p)"
    by (auto simp: slide_chain_eq)
  with assms(1) show ?thesis by auto
qed

lemma reachable_chain_consistent:
  "reachable_chain sz p \<Longrightarrow> 0 < sz \<Longrightarrow> consistent_chain p \<and> csize p = sz"
proof (induction rule: reachable_chain.induct)
  case (fresh_chain p)
  then show ?case using constructor_chain_consistent by blast
next
  case (randomized_chain p rs p' rs')
  from randomize_chain_result [OF randomized_chain.hyps(2)]
    randomized_chain.IH [OF randomized_chain.prems]
  show ?case by simp
next
  case (slid_chain p i ok p')
  then have c: "consistent_chain p" "csize p = sz" by simp_all
  from slid_chain.hyps(2,3) c(2) have r: "0 \<le> i" "i < csize p * csize p" by simp_all
  from slide_chain_consistent [OF c(1) r] slid_chain.hyps(4) c(2) show ?case by auto
qed

lemma permutation_count:
  assumes "is_permutation n xs" "0 \<le> v" "v < n * n"
  shows "count_list xs (Some v) = 1"
proof -
  have "Some v \<in> set xs"
    using assms(2,3) by (simp add: permutation_set [OF assms(1)])
  with permutation_distinct [OF assms(1)] have "count (mset xs) (Some v) = 1"
    by (simp add: distinct_count_atmost_1)
  then show ?thesis by (simp add: count_mset)
qed

lemma constructor_chain_three: "constructor_chain 3 = Inr fresh3_chain"
  by (simp add: constructor_chain_def keys_def upt_conv_Cons)

lemma blank_fresh3: "blank_i fresh3_chain = 8"
  by (simp add: blank_i_def of_list_def)

lemma slide_chain_fresh3:
  "slide_chain fresh3_chain 2
   = Some (True, \<lparr>csize = 3,
        cboard = of_list [Some 0, Some 1, Some 8, Some 3, Some 4, Some 2, Some 6, Some 7, Some 5],
        cblank_val = 8\<rparr>)"
proof -
  have w: "walk_down 3 2 8 (of_list [Some 0, Some 1, Some 2, Some 3, Some 4, Some 5, Some 6, Some 7, Some 8])
     = Some (of_list [Some 0, Some 1, Some 8, Some 3, Some 4, Some 2, Some 6, Some 7, Some 5])"
    apply (subst walk_down.simps, simp add: swap_def arr_get_def arr_set_def of_list_def)
    apply (subst walk_down.simps, simp add: swap_def arr_get_def arr_set_def of_list_def)
    apply (subst walk_down.simps, simp add: swap_def arr_get_def arr_set_def of_list_def)
    done
  show ?thesis
    by (simp add: slide_chain_def blank_fresh3 eval_coords walk_def w Let_def)
qed

section \<open>Claims about the chain move\<close>

text \<open>
  C4. In part_001, on a consistent state (every reachable state is one, lemma
  \<open>reachable_chain_consistent\<close>) and for every board position \<open>i\<close>, \<open>slide(i)\<close> returns; it
  succeeds exactly when \<open>i\<close> shares its column or its row with the blank and is not the
  blank's own position. On success the blank is at \<open>i\<close>, every tile on the line from \<open>i\<close>
  (included) to the blank's original position (excluded) has moved one cell toward
  that position, and the cells off that line are unchanged.
\<close>

theorem chain_slide:
  assumes "consistent_chain p" "0 \<le> i" "i < csize p * csize p"
  shows "\<exists>ok p'. slide_chain p i = Some (ok, p')
      \<and> ok = ((same_column p i \<or> same_row p i) \<and> i \<noteq> blank_i p)
      \<and> (ok \<longrightarrow> blank_i p' = i
            \<and> (\<forall>t. between p i t \<longrightarrow>
                  elems (cboard p') ! nat (t + toward_blank p i) = elems (cboard p) ! nat t)
            \<and> (\<forall>k. 0 \<le> k \<and> k < csize p * csize p \<and> k \<noteq> blank_i p \<and> \<not> between p i k \<longrightarrow>
                  elems (cboard p') ! nat k = elems (cboard p) ! nat k)
            \<and> length (elems (cboard p')) = length (elems (cboard p))
            \<and> csize p' = csize p \<and> cblank_val p' = cblank_val p)"
proof (cases "(same_column p i \<or> same_row p i) \<and> i \<noteq> blank_i p")
  case False
  have "same_column p i = same_row p i"
  proof (cases "i = blank_i p")
    case True
    with consistent_chain_coords [OF assms(1,2)] show ?thesis by simp
  next
    case False
    with \<open>\<not> ((same_column p i \<or> same_row p i) \<and> i \<noteq> blank_i p)\<close> show ?thesis by simp
  qed
  then have "slide_chain p i = Some (False, p)"
    by (auto simp: slide_chain_eq)
  with False show ?thesis by simp
next
  case True
  define n where "n = csize p"
  define b where "b = blank_i p"
  define d where "d = step_of p i"
  define w where "w = toward_blank p i"
  define old where "old = elems (cboard p)"
  from assms(1) have n: "0 < n" and perm: "is_permutation n old"
    by (simp_all add: consistent_chain_def n_def old_def)
  note cb = consistent_chain_blank [OF assms(1), folded n_def b_def old_def]
  from True have ib: "i \<noteq> b" by (simp add: b_def)
  from True have sc: "same_column p i \<or> same_row p i" by simp
  from slide_chain_legal_effect [OF assms sc, folded n_def b_def d_def w_def old_def, OF ib]
  obtain r where s: "slide_chain p i = Some (True, p\<lparr>cboard := r\<rparr>)"
    and len: "length (elems r) = length old" and ms: "mset (elems r) = mset old"
    and at: "\<And>k. 0 \<le> k \<Longrightarrow> k < n * n \<Longrightarrow>
               elems r ! nat k =
                 (if k = i then Some (cblank_val p)
                  else if min i b \<le> k \<and> k \<le> max i b \<and> d dvd k - i then old ! nat (k - w)
                  else old ! nat k)"
    by blast
  have d: "0 < d" "d dvd i - b"
  proof -
    show "0 < d" using n by (simp add: d_def step_of_def n_def)
    show "d dvd i - b"
    proof (cases "same_column p i")
      case True
      then have "i mod n = b mod n"
        by (simp add: consistent_chain_coords [OF assms(1,2)] n_def b_def)
      then have "n dvd i - b" by (simp add: mod_eq_dvd_iff)
      with True show ?thesis by (simp add: d_def step_of_def n_def)
    next
      case False
      then show ?thesis by (simp add: d_def step_of_def)
    qed
  qed
  have w: "w = (if i < b then d else - d)"
    by (simp add: w_def toward_blank_def d_def b_def)
  have btw: "between p i t \<longleftrightarrow> min i b \<le> t \<and> t \<le> max i b \<and> d dvd t - i \<and> t \<noteq> b" for t
    by (simp add: between_def b_def d_def)
  \<comment> \<open>the blank ends up at the target\<close>
  have "is_permutation n (elems r)"
    using perm ms by (simp add: is_permutation_def)
  then have "distinct (elems r)" by (rule permutation_distinct)
  moreover have "nat i < length (elems r)"
    using assms(2,3) cb(4) n by (simp add: len n_def nat_less_iff)
  moreover have "elems r ! nat i = Some (cblank_val p)"
    using at [of i] assms(2,3) by (simp add: n_def)
  ultimately have blank': "blank_i (p\<lparr>cboard := r\<rparr>) = i"
    using indexOf_distinct [of "elems r" "nat i" "Some (cblank_val p)"] assms(2)
    by (simp add: blank_i_def)
  \<comment> \<open>every tile of the line moves one cell toward the blank\<close>
  have shift: "elems r ! nat (t + w) = old ! nat t" if "between p i t" for t
  proof -
    from that have t: "min i b \<le> t" "t \<le> max i b" "d dvd t - i" "t \<noteq> b"
      by (simp_all add: btw)
    have tb: "d dvd t - b"
      using dvd_add [OF t(3) d(2)] by simp
    have k: "min i b \<le> t + w \<and> t + w \<le> max i b \<and> t + w \<noteq> i"
    proof (cases "i < b")
      case True
      with t have "t < b" by simp
      from dvd_gap [OF d(1) this] tb have "t + d \<le> b"
        by (simp add: dvd_diff_commute)
      with True t d(1) show ?thesis by (simp add: w)
    next
      case False
      with ib t have "b < t" by simp
      from dvd_gap [OF d(1) this tb] have "b + d \<le> t" .
      with False ib t d(1) show ?thesis by (simp add: w)
    qed
    have "d dvd t + w - i"
      using dvd_add [OF t(3) dvd_refl [of d]] dvd_diff [OF t(3) dvd_refl [of d]]
      by (simp add: w algebra_simps)
    moreover have "0 \<le> t + w" "t + w < n * n"
      using k assms(2) assms(3) [folded n_def] cb(1,2) by linarith+
    ultimately show ?thesis
      using at [of "t + w"] k by simp
  qed
  \<comment> \<open>the cells off the line stay\<close>
  have frame: "elems r ! nat k = old ! nat k"
    if "0 \<le> k" "k < n * n" "k \<noteq> b" "\<not> between p i k" for k
  proof -
    from that(3,4) have "\<not> (min i b \<le> k \<and> k \<le> max i b \<and> d dvd k - i)"
      by (simp add: btw)
    moreover from this have "k \<noteq> i" by auto
    ultimately show ?thesis
      using at [OF that(1,2)] by auto
  qed
  show ?thesis
    using s True blank' shift frame len
    unfolding n_def b_def w_def old_def by auto
qed

theorem chain_slide_witness:
  "consistent_chain fresh3_chain
   \<and> slide_chain fresh3_chain 2
     = Some (True, \<lparr>csize = 3,
          cboard = of_list [Some 0, Some 1, Some 8, Some 3, Some 4, Some 2, Some 6, Some 7, Some 5],
          cblank_val = 8\<rparr>)
   \<and> same_column fresh3_chain 2 \<and> \<not> same_row fresh3_chain 2 \<and> blank_i fresh3_chain = 8
   \<and> between fresh3_chain 2 2 \<and> between fresh3_chain 2 5 \<and> toward_blank fresh3_chain 2 = 3"
proof -
  have c: "consistent_chain fresh3_chain"
    using constructor_chain_consistent [OF _ constructor_chain_three] by simp
  from chain_slide [OF c, of 2] c show ?thesis
    by (simp add: slide_chain_fresh3 blank_fresh3 same_column_def same_row_def between_def
        toward_blank_def step_of_def eval_coords)
qed

section \<open>Sequences of calls\<close>

lemma run_reachable:
  "reachable sz p \<Longrightarrow> list_all (on_board sz) cs \<Longrightarrow> run p cs = Some p' \<Longrightarrow> reachable sz p'"
proof (induction cs arbitrary: p)
  case Nil
  then show ?case by simp
next
  case (Cons c cs)
  show ?case
  proof (cases c)
    case (Slide ident)
    with Cons.prems have r: "0 \<le> ident" "ident < sz * sz"
      and run: "run (snd (slide p ident)) cs = Some p'" and rest: "list_all (on_board sz) cs"
      by simp_all
    have "reachable sz (snd (slide p ident))"
      by (rule reachable.slid [OF Cons.prems(1) r, of "fst (slide p ident)"]) simp
    from Cons.IH [OF this rest run] show ?thesis .
  next
    case (Randomize rs)
    with Cons.prems obtain q rs' where q: "randomize rs p = Some (q, rs')"
      and run: "run q cs = Some p'" and rest: "list_all (on_board sz) cs"
      by (auto split: option.splits)
    have "reachable sz q"
      by (rule reachable.randomized [OF Cons.prems(1) q])
    from Cons.IH [OF this rest run] show ?thesis .
  qed
qed

lemma run_chain_reachable:
  "reachable_chain sz p \<Longrightarrow> list_all (on_board sz) cs \<Longrightarrow> run_chain p cs = Some p'
   \<Longrightarrow> reachable_chain sz p'"
proof (induction cs arbitrary: p)
  case Nil
  then show ?case by simp
next
  case (Cons c cs)
  show ?case
  proof (cases c)
    case (Slide i)
    with Cons.prems obtain ok q where r: "0 \<le> i" "i < sz * sz"
      and q: "slide_chain p i = Some (ok, q)"
      and run: "run_chain q cs = Some p'" and rest: "list_all (on_board sz) cs"
      by (auto split: option.splits)
    have "reachable_chain sz q"
      by (rule reachable_chain.slid_chain [OF Cons.prems(1) r q])
    from Cons.IH [OF this rest run] show ?thesis .
  next
    case (Randomize rs)
    with Cons.prems obtain q rs' where q: "randomize_chain rs p = Some (q, rs')"
      and run: "run_chain q cs = Some p'" and rest: "list_all (on_board sz) cs"
      by (auto split: option.splits)
    have "reachable_chain sz q"
      by (rule reachable_chain.randomized_chain [OF Cons.prems(1) q])
    from Cons.IH [OF this rest run] show ?thesis .
  qed
qed

lemma constructor_two: "constructor 2 = Inr fresh2"
  by (simp add: constructor_def keys_def upt_conv_Cons)

lemma constructor_chain_two: "constructor_chain 2 = Inr fresh2_chain"
  by (simp add: constructor_chain_def keys_def upt_conv_Cons)

lemma slide_fresh2_1: "slide fresh2 1 = (True, \<lparr>psize = 2, board = of_list [Some 0, Some 3, Some 2, Some 1],
               solvedBoard = of_list [Some 0, Some 1, Some 2, Some 3],
               blank_val = 3, blank_x = Fin 1, blank_y = Fin 0\<rparr>)"
  by (simp add: slide_def eval_coords arr_get_def arr_set_def of_list_def)

lemma run_corner2: "run fresh2 [Slide 1, Slide 0] = Some corner2"
  by (simp add: slide_fresh2_1) (simp add: slide_def eval_coords arr_get_def arr_set_def of_list_def Let_def)

lemma slide_corner2:
  "fst (slide corner2 (- 2))"
  "elems (board (snd (slide corner2 (- 2)))) = [None, Some 0, Some 2, Some 1]"
  "props (board (snd (slide corner2 (- 2)))) (- 2) = Some 3"
  "blank_x (snd (slide corner2 (- 2))) = Fin 0"
  "blank_y (snd (slide corner2 (- 2))) = Fin (- 1)"
  by (simp_all add: slide_def eval_coords arr_get_def arr_set_def of_list_def Let_def)

lemma slide_fresh2_5:
  "slide fresh2 5 = (True, \<lparr>psize = 2, board = of_list [Some 0, Some 1, Some 2, None, None, Some 3],
               solvedBoard = of_list [Some 0, Some 1, Some 2, Some 3],
               blank_val = 3, blank_x = Fin 1, blank_y = Fin 2\<rparr>)"
  by (simp add: slide_def eval_coords arr_get_def arr_set_def of_list_def)

lemma slide_chain_fresh2_5:
  "slide_chain fresh2_chain 5
   = Some (True, \<lparr>csize = 2, cboard = of_list [Some 0, Some 1, Some 2, None, None, Some 3],
                  cblank_val = 3\<rparr>)"
proof -
  have b: "blank_i fresh2_chain = 3"
    by (simp add: blank_i_def of_list_def)
  have w: "walk_up 2 5 3 (of_list [Some 0, Some 1, Some 2, Some 3])
           = Some (of_list [Some 0, Some 1, Some 2, None, None, Some 3])"
    apply (subst walk_up.simps, simp add: swap_def arr_get_def arr_set_def of_list_def)
    apply (subst walk_up.simps, simp add: swap_def arr_get_def arr_set_def of_list_def)
    done
  show ?thesis
    by (simp add: slide_chain_def b eval_coords walk_def w Let_def)
qed

lemma randomize_draws_fresh2:
  "randomize draws fresh2
     = Some (\<lparr>psize = 2, board = of_list [Some 0, Some 1, Some 3, Some 2],
               solvedBoard = of_list [Some 0, Some 1, Some 2, Some 3],
               blank_val = 3, blank_x = Fin 0, blank_y = Fin 1\<rparr>, sconst 0)"
proof -
  have "solvable \<lparr>psize = 2, board = of_list [Some 0, Some 1, Some 3, Some 2],
               solvedBoard = of_list [Some 0, Some 1, Some 2, Some 3],
               blank_val = 3, blank_x = Fin 0, blank_y = Fin 1\<rparr>"
    by (simp add: solvable_def eval_inversions eval_coords)
  then show ?thesis
    by (subst randomize.simps)
      (simp add: elems_of_list shuffle_draws reshuffled_def Let_def eval_coords)
qed

lemma run_draws_fresh2:
  "run fresh2 [Randomize draws, Slide 0]
   = Some \<lparr>psize = 2, board = of_list [Some 3, Some 1, Some 0, Some 2],
            solvedBoard = of_list [Some 0, Some 1, Some 2, Some 3],
            blank_val = 3, blank_x = Fin 0, blank_y = Fin 0\<rparr>"
  by (simp add: randomize_draws_fresh2)
    (simp add: slide_def eval_coords arr_get_def arr_set_def of_list_def Let_def)

lemma run_chain_fresh3:
  "run_chain fresh3_chain [Slide 2]
   = Some \<lparr>csize = 3,
        cboard = of_list [Some 0, Some 1, Some 8, Some 3, Some 4, Some 2, Some 6, Some 7, Some 5],
        cblank_val = 8\<rparr>"
  by (simp add: slide_chain_fresh3)

section \<open>Claims about every state an engine reaches\<close>

text \<open>
  C2, as the code has it. For every size of at least 2 and every board reached from
  construction by a sequence of \<open>randomize\<close> calls and of \<open>slide\<close> calls on board positions
  (\<open>0 \<le> target < size*size\<close>), in either file, the board has \<open>size*size\<close> cells and holds
  every identifier \<open>0 .. size*size - 1\<close> exactly once.
\<close>

theorem board_always_permutation:
  "(2 \<le> sz \<and> constructor sz = Inr p0 \<and> list_all (on_board sz) cs \<and> run p0 cs = Some p \<longrightarrow>
      length (elems (board p)) = nat (sz * sz)
      \<and> (\<forall>v. 0 \<le> v \<and> v < sz * sz \<longrightarrow> count_list (elems (board p)) (Some v) = 1))
   \<and> (2 \<le> sz \<and> constructor_chain sz = Inr q0 \<and> list_all (on_board sz) cs'
        \<and> run_chain q0 cs' = Some q \<longrightarrow>
      length (elems (cboard q)) = nat (sz * sz)
      \<and> (\<forall>v. 0 \<le> v \<and> v < sz * sz \<longrightarrow> count_list (elems (cboard q)) (Some v) = 1))"
proof (intro conjI impI allI)
  assume a: "2 \<le> sz \<and> constructor sz = Inr p0 \<and> list_all (on_board sz) cs \<and> run p0 cs = Some p"
  then have "reachable sz p"
    using run_reachable [OF reachable.fresh] by blast
  with a have "consistent p \<and> psize p = sz"
    using reachable_consistent [of sz p] by simp
  then have perm: "is_permutation sz (elems (board p))"
    by (auto simp: consistent_def)
  show "length (elems (board p)) = nat (sz * sz)"
    by (rule permutation_length [OF perm])
  fix v assume "0 \<le> v \<and> v < sz * sz"
  then show "count_list (elems (board p)) (Some v) = 1"
    using permutation_count [OF perm] by simp
next
  assume a: "2 \<le> sz \<and> constructor_chain sz = Inr q0 \<and> list_all (on_board sz) cs'
              \<and> run_chain q0 cs' = Some q"
  then have "reachable_chain sz q"
    using run_chain_reachable [OF reachable_chain.fresh_chain] by blast
  with a have "consistent_chain q \<and> csize q = sz"
    using reachable_chain_consistent [of sz q] by simp
  then have perm: "is_permutation sz (elems (cboard q))"
    by (auto simp: consistent_chain_def)
  show "length (elems (cboard q)) = nat (sz * sz)"
    by (rule permutation_length [OF perm])
  fix v assume "0 \<le> v \<and> v < sz * sz"
  then show "count_list (elems (cboard q)) (Some v) = 1"
    using permutation_count [OF perm] by simp
qed

theorem board_always_permutation_witness:
  "constructor 2 = Inr fresh2 \<and> list_all (on_board 2) [Randomize draws, Slide 0]
   \<and> run fresh2 [Randomize draws, Slide 0]
      = Some \<lparr>psize = 2, board = of_list [Some 3, Some 1, Some 0, Some 2],
               solvedBoard = of_list [Some 0, Some 1, Some 2, Some 3],
               blank_val = 3, blank_x = Fin 0, blank_y = Fin 0\<rparr>
   \<and> count_list [Some 3, Some 1, Some 0, Some 2] (Some (3::int)) = 1
   \<and> constructor_chain 3 = Inr fresh3_chain \<and> list_all (on_board 3) [Slide 2]
   \<and> run_chain fresh3_chain [Slide 2]
      = Some \<lparr>csize = 3,
          cboard = of_list [Some 0, Some 1, Some 8, Some 3, Some 4, Some 2, Some 6, Some 7, Some 5],
          cblank_val = 8\<rparr>
   \<and> count_list [Some 0, Some 1, Some 8, Some 3, Some 4, Some 2, Some 6, Some 7, Some 5]
        (Some (8::int)) = 1"
proof -
  have ob: "list_all (on_board 2) [Randomize draws, Slide 0]" "list_all (on_board 3) [Slide 2]"
    by simp_all
  from board_always_permutation [of 2 fresh2 "[Randomize draws, Slide 0]" _ fresh2_chain "[]"
      fresh2_chain]
    board_always_permutation [of 3 fresh2 "[]" fresh2 fresh3_chain "[Slide 2]"]
    ob constructor_two constructor_chain_three run_draws_fresh2 run_chain_fresh3
  show ?thesis
    by (simp del: run.simps run_chain.simps)
qed

text \<open>
  C2 as stated fails: it allows any \<open>slide\<close> call. On the fresh 2x2 board \<open>slide(5)\<close> is at
  distance 1 below the blank (and in its column), so both files make the move: the blank
  value is written to index 5, the array grows to six cells, two of them \<open>undefined\<close>,
  and the board is no permutation of \<open>0 .. 3\<close>.
\<close>

theorem board_off_board_slide:
  "constructor 2 = Inr fresh2
   \<and> run fresh2 [Slide 5]
      = Some \<lparr>psize = 2, board = of_list [Some 0, Some 1, Some 2, None, None, Some 3],
               solvedBoard = of_list [Some 0, Some 1, Some 2, Some 3],
               blank_val = 3, blank_x = Fin 1, blank_y = Fin 2\<rparr>
   \<and> constructor_chain 2 = Inr fresh2_chain
   \<and> run_chain fresh2_chain [Slide 5]
      = Some \<lparr>csize = 2, cboard = of_list [Some 0, Some 1, Some 2, None, None, Some 3],
               cblank_val = 3\<rparr>
   \<and> length [Some 0, Some 1, Some 2, None, None, Some (3::int)] \<noteq> nat (2 * 2)
   \<and> \<not> is_permutation 2 [Some 0, Some 1, Some 2, None, None, Some 3]"
proof -
  have "\<not> is_permutation 2 [Some 0, Some 1, Some 2, None, None, Some 3]"
    using permutation_length [of 2 "[Some 0, Some 1, Some 2, None, None, Some 3]"] by auto
  then show ?thesis
    by (simp add: constructor_two constructor_chain_two slide_fresh2_5 slide_chain_fresh2_5)
qed

text \<open>
  C8, as the code has it. In fifteen.js (and part_000), for an engine of positive size,
  after construction and after every further \<open>randomize\<close> call and every \<open>slide\<close> call on a
  board position (\<open>0 \<le> id < size*size\<close>), exactly one board index holds the blank value
  \<open>size*size - 1\<close>, and the cached \<open>_blank_x\<close>, \<open>_blank_y\<close> are the coordinates \<open>_x\<close>, \<open>_y\<close> of
  that index.
\<close>

theorem cached_blank_consistent:
  assumes "0 < sz" "constructor sz = Inr p0" "list_all (on_board sz) cs" "run p0 cs = Some p"
  shows "(\<exists>!k. k < length (elems (board p)) \<and> elems (board p) ! k = Some (sz * sz - 1))
       \<and> (\<forall>k. k < length (elems (board p)) \<and> elems (board p) ! k = Some (sz * sz - 1)
              \<longrightarrow> blank_x p = x_of sz (int k) \<and> blank_y p = y_of sz (int k))"
proof -
  have "reachable sz p"
    by (rule run_reachable [OF reachable.fresh [OF assms(2)] assms(3,4)])
  from reachable_consistent [OF this assms(1)] have c: "consistent p" and sz: "psize p = sz"
    by simp_all
  then have bv: "blank_val p = sz * sz - 1"
    by (simp add: consistent_def)
  define b where "b = indexOf (elems (board p)) (Some (blank_val p))"
  note cb = consistent_blank [OF c, folded b_def]
  have u: "int k = b" if "k < length (elems (board p))" "elems (board p) ! k = Some (sz * sz - 1)" for k
    using consistent_unique_blank [OF c that(1)] that(2) by (simp add: bv b_def)
  have "nat b < length (elems (board p))"
    using cb(1,2,6) by (simp add: nat_less_iff)
  moreover have "elems (board p) ! nat b = Some (sz * sz - 1)"
    using cb(3) by (simp add: bv)
  ultimately have "\<exists>!k. k < length (elems (board p)) \<and> elems (board p) ! k = Some (sz * sz - 1)"
    using u by (intro ex1I [of _ "nat b"]) force+
  moreover have "blank_x p = x_of sz (int k) \<and> blank_y p = y_of sz (int k)"
    if "k < length (elems (board p))" "elems (board p) ! k = Some (sz * sz - 1)" for k
    using u [OF that] c by (simp add: consistent_def b_def sz)
  ultimately show ?thesis by blast
qed

theorem cached_blank_consistent_witness:
  "(0::int) < 2 \<and> constructor 2 = Inr fresh2 \<and> list_all (on_board 2) [Randomize draws, Slide 0]
   \<and> run fresh2 [Randomize draws, Slide 0]
      = Some \<lparr>psize = 2, board = of_list [Some 3, Some 1, Some 0, Some 2],
               solvedBoard = of_list [Some 0, Some 1, Some 2, Some 3],
               blank_val = 3, blank_x = Fin 0, blank_y = Fin 0\<rparr>
   \<and> x_of 2 0 = Fin 0 \<and> y_of 2 0 = Fin 0"
proof -
  have ob: "list_all (on_board 2) [Randomize draws, Slide 0]"
    by simp
  from cached_blank_consistent [OF _ constructor_two ob run_draws_fresh2]
    ob constructor_two run_draws_fresh2
  show ?thesis
    by (simp del: run.simps add: eval_coords)
qed

text \<open>
  C8 as stated fails: it covers every successful \<open>slide\<close>. On the 2x2 board, after
  \<open>slide(1)\<close> and \<open>slide(0)\<close> the blank is at index 0; \<open>slide(-2)\<close> then has coordinates
  \<open>(0, -1)\<close>, at distance 1 from the blank, and succeeds. The blank value goes to the
  property \<open>-2\<close>, index 0 receives \<open>undefined\<close>, no board index holds the blank value any
  more, and the cache reads \<open>(0, -1)\<close>.
\<close>

theorem cached_blank_lost_off_board:
  "constructor 2 = Inr fresh2 \<and> run fresh2 [Slide 1, Slide 0] = Some corner2
   \<and> fst (slide corner2 (- 2))
   \<and> elems (board (snd (slide corner2 (- 2)))) = [None, Some 0, Some 2, Some 1]
   \<and> count_list [None, Some 0, Some 2, Some 1] (Some (2 * 2 - 1 :: int)) = 0
   \<and> blank_x (snd (slide corner2 (- 2))) = Fin 0
   \<and> blank_y (snd (slide corner2 (- 2))) = Fin (- 1)"
  using constructor_two run_corner2 slide_corner2
  by (simp del: run.simps)

end
